theory Spec2Isabelle
  imports Complex_Main
begin

section \<open>Orbital task engine: the simulated execution engine of \<open>src/App.jsx\<close>\<close>

text \<open>
  The development embeds the class \<open>TaskExecutionEngine\<close> (constructor, \<open>subscribe\<close>,
  \<open>notify\<close>, \<open>executeDAG\<close>, \<open>updateMetrics\<close>). Everything the JavaScript takes from its
  surroundings is an explicit input:
  \<^item> \<open>Math.random()\<close> is an oracle \<open>rnd\<close>, read at the position \<open>rix\<close> of the state;
  \<^item> \<open>Date.now()\<close> and \<open>new Date()\<close> are an oracle \<open>clk\<close> of millisecond time stamps, read
    at the position \<open>cix\<close>;
  \<^item> a subscriber callback is a function object, identified by a number; what it does to
    the engine when it is called with an event is a list of actions (\<open>handler\<close>):
    subscribing a callback, calling the unsubscribe function of a callback, throwing an
    \<open>Error\<close> with a message. A callback does nothing else to the engine, to the event or to
    the DAG.
  A JavaScript number is an IEEE 754 binary64 value; the finite ones are rationals, and
  every arithmetic operation rounds its exact result to the nearest one, ties to even.

  \<open>executeDAG\<close> is an \<open>async\<close> function that suspends once per task, on a timer. The model
  is of one run from its call to the settlement of its promise, with nothing else acting
  on the engine while the run is suspended (the page starts one run at a time).
\<close>

subsection \<open>JavaScript numbers\<close>

text \<open>\<open>ilog2 n\<close> is the position of the leading bit of \<open>n\<close>, for \<open>n \<ge> 1\<close>.\<close>

function ilog2 :: "int \<Rightarrow> int" where
  "ilog2 n = (if n < 2 then 0 else 1 + ilog2 (n div 2))"
  by pat_completeness auto
termination
  by (relation "measure nat") auto

declare ilog2.simps [simp del]

text \<open>Rounding a rational to the nearest integer, a tie going to the even neighbour.\<close>

definition rne :: "rat \<Rightarrow> int" where
  "rne q = (let f = \<lfloor>q\<rfloor>; d = q - of_int f in
     if d < 1 / 2 then f else if 1 / 2 < d then f + 1 else if even f then f else f + 1)"

text \<open>The binary exponent of a positive rational: \<open>2 ^ flog2 a \<le> a < 2 ^ (flog2 a + 1)\<close>.\<close>

definition flog2 :: "rat \<Rightarrow> int" where
  "flog2 a = (if 1 \<le> a then ilog2 \<lfloor>a\<rfloor> else - (ilog2 (\<lceil>1 / a\<rceil> - 1) + 1))"

text \<open>
  The spacing of binary64 values around \<open>a > 0\<close>: 52 fraction bits below the leading bit,
  and the fixed spacing \<open>2 ^ -1074\<close> of the subnormal range below \<open>2 ^ -1022\<close>.
\<close>

definition ulp :: "rat \<Rightarrow> rat" where
  "ulp a = 2 powi (max (flog2 a) (- 1022) - 52)"

text \<open>
  Rounding to binary64. Overflow to infinity (results of \<open>2 ^ 1024\<close> and more) and the sign
  of zero are not represented; no operation of the engine comes near either.
\<close>

definition fround :: "rat \<Rightarrow> rat" where
  "fround x = (if x = 0 then 0 else sgn x * (of_int (rne (\<bar>x\<bar> / ulp \<bar>x\<bar>)) * ulp \<bar>x\<bar>))"

definition fmul :: "rat \<Rightarrow> rat \<Rightarrow> rat" where
  "fmul x y = fround (x * y)"

definition fadd :: "rat \<Rightarrow> rat \<Rightarrow> rat" where
  "fadd x y = fround (x + y)"

definition fsub :: "rat \<Rightarrow> rat \<Rightarrow> rat" where
  "fsub x y = fround (x - y)"

text \<open>The literal \<open>0.15\<close> denotes the binary64 value nearest to 15/100.\<close>

definition lit_0_15 :: rat where
  "lit_0_15 = 5404319552844595 / 36028797018963968"

subsection \<open>Data model\<close>

text \<open>A task of a DAG, as in \<open>SAMPLE_DAGS\<close>: \<open>{ id, name, type, retries }\<close>.\<close>

record task_def =
  td_id :: string
  td_name :: string
  td_type :: string
  td_retries :: nat

record dag =
  dag_id :: string
  dag_name :: string
  dag_description :: string
  dag_version :: string
  dag_tasks :: "task_def list"
  dag_dependencies :: "(string \<times> string list) list"

text \<open>
  The object \<open>taskExecution\<close>. The fields \<open>endTime\<close> and \<open>error\<close> do not exist until they are
  assigned: \<open>None\<close>.
\<close>

record task_execution =
  te_id :: string
  te_status :: string
  te_startTime :: nat
  te_retries :: nat
  te_endTime :: "nat option"
  te_error :: "string option"

text \<open>
  The object \<open>execution\<close>. Its field \<open>tasks\<close> is a plain object, created as \<open>{}\<close> and used as
  a dictionary keyed by task id. Such an object is its own properties (\<open>ex_tasks\<close>: these are
  the entries that \<open>Object.keys\<close> lists) and a prototype. The prototype is
  \<open>Object.prototype\<close> (\<open>ex_tasks_proto\<close> is \<open>None\<close>) until an assignment to the property
  \<open>__proto__\<close> replaces it by a task record.
\<close>

record execution =
  ex_id :: string
  ex_dag :: string
  ex_status :: string
  ex_startTime :: nat
  ex_tasks :: "string \<rightharpoonup> task_execution"
  ex_tasks_proto :: "task_execution option"
  ex_cost :: rat
  ex_error :: "string option"
  ex_endTime :: "nat option"

text \<open>
  The argument of \<open>notify\<close>: \<open>{ type, execution, task }\<close>. The JavaScript event refers to the
  objects \<open>execution\<close> and \<open>taskExecution\<close>; the model's event holds their contents at the
  moment of publication, which is what a callback reads when it is called.
\<close>

record event =
  ev_type :: string
  ev_execution :: execution
  ev_task :: "task_execution option"

record metrics_snapshot =
  totalExecutions :: rat
  successRate :: rat
  avgExecutionTime :: rat
  activeWorkers :: nat
  queueDepth :: rat

type_synonym cb = nat

text \<open>
  The engine object (\<open>executions\<close>, \<open>subscribers\<close>, \<open>metrics\<close>), the read positions of the two
  oracles, and three histories kept for the statements only: the arguments of the calls
  of \<open>notify\<close>, the calls of callbacks, the delays handed to \<open>setTimeout\<close>.

  \<open>subscribers\<close> is the entry list of a JavaScript \<open>Set\<close> (ECMAScript \<open>[[SetData]]\<close>):
  values in insertion order, a deleted value leaving the hole \<open>None\<close> behind.
\<close>

record state =
  executions :: "string \<rightharpoonup> execution"
  subscribers :: "cb option list"
  metrics :: metrics_snapshot
  rix :: nat
  cix :: nat
  published :: "event list"
  delivered :: "(cb \<times> event) list"
  timers :: "rat list"

datatype action = Subscribe cb | Unsubscribe cb | Throw string

record world =
  rnd :: "nat \<Rightarrow> rat"
  clk :: "nat \<Rightarrow> nat"
  handler :: "cb \<Rightarrow> event \<Rightarrow> action list"

datatype outcome = Normal | Thrown string

subsection \<open>The constructor\<close>

text \<open>The arguments are the read positions of the two oracles when the engine is built.\<close>

definition constructor :: "nat \<Rightarrow> nat \<Rightarrow> state" where
  "constructor r c =
     \<lparr> executions = Map.empty,
       subscribers = [],
       metrics = \<lparr> totalExecutions = 0, successRate = 85, avgExecutionTime = 5 / 2,
                   activeWorkers = 3, queueDepth = 5 \<rparr>,
       rix = r, cix = c, published = [], delivered = [], timers = [] \<rparr>"

subsection \<open>The oracles\<close>

definition random :: "world \<Rightarrow> state \<Rightarrow> rat \<times> state" where
  "random w s = (rnd w (rix s), s\<lparr>rix := Suc (rix s)\<rparr>)"

definition now :: "world \<Rightarrow> state \<Rightarrow> nat \<times> state" where
  "now w s = (clk w (cix s), s\<lparr>cix := Suc (cix s)\<rparr>)"

text \<open>\<open>Number.prototype.toString\<close> on a non-negative integer: its decimal digits.\<close>

fun toString :: "nat \<Rightarrow> string" where
  "toString n = (if n < 10 then [''0123456789'' ! n]
                 else toString (n div 10) @ [''0123456789'' ! (n mod 10)])"

declare toString.simps [simp del]

subsection \<open>subscribe and notify\<close>

text \<open>\<open>Set.prototype.add\<close>: a value already present is not added again.\<close>

definition set_add :: "cb \<Rightarrow> cb option list \<Rightarrow> cb option list" where
  "set_add c es = (if Some c \<in> set es then es else es @ [Some c])"

text \<open>\<open>Set.prototype.delete\<close>: the entry holding the value becomes a hole.\<close>

fun set_delete :: "cb \<Rightarrow> cb option list \<Rightarrow> cb option list" where
  "set_delete c [] = []"
| "set_delete c (e # es) = (if e = Some c then None # es else e # set_delete c es)"

definition subscribe :: "cb \<Rightarrow> state \<Rightarrow> state" where
  "subscribe callback s = s\<lparr>subscribers := set_add callback (subscribers s)\<rparr>"

text \<open>The function that \<open>subscribe callback\<close> returns: \<open>() => this.subscribers.delete(callback)\<close>.\<close>

definition unsubscribe :: "cb \<Rightarrow> state \<Rightarrow> state" where
  "unsubscribe callback s = s\<lparr>subscribers := set_delete callback (subscribers s)\<rparr>"

text \<open>What one call of a callback does to the engine; a throw ends the call.\<close>

fun run_actions :: "action list \<Rightarrow> state \<Rightarrow> outcome \<times> state" where
  "run_actions [] s = (Normal, s)"
| "run_actions (Subscribe c # as) s = run_actions as (subscribe c s)"
| "run_actions (Unsubscribe c # as) s = run_actions as (unsubscribe c s)"
| "run_actions (Throw m # as) s = (Thrown m, s)"

text \<open>
  \<open>Set.prototype.forEach\<close>: the entry list is walked by index, holes are skipped, and the
  number of entries is read again after every call, so that an entry appended by a callback
  is visited too. The walk need not end (a callback may delete and add itself again at every
  call): the first argument bounds the number of entries visited, and \<open>None\<close> says that the
  bound was reached.
\<close>

fun forEach :: "nat \<Rightarrow> world \<Rightarrow> event \<Rightarrow> nat \<Rightarrow> state \<Rightarrow> (outcome \<times> state) option" where
  "forEach 0 w data index s = None"
| "forEach (Suc fuel) w data index s =
     (if index < length (subscribers s) then
        (case subscribers s ! index of
           None \<Rightarrow> forEach fuel w data (Suc index) s
         | Some callback \<Rightarrow>
             (case run_actions (handler w callback data)
                     (s\<lparr>delivered := delivered s @ [(callback, data)]\<rparr>) of
                (Thrown m, s') \<Rightarrow> Some (Thrown m, s')
              | (Normal, s') \<Rightarrow> forEach fuel w data (Suc index) s'))
      else Some (Normal, s))"

definition notify :: "nat \<Rightarrow> world \<Rightarrow> event \<Rightarrow> state \<Rightarrow> (outcome \<times> state) option" where
  "notify fuel w data s = forEach fuel w data 0 (s\<lparr>published := published s @ [data]\<rparr>)"

subsection \<open>updateMetrics\<close>

definition updateMetrics :: "bool \<Rightarrow> state \<Rightarrow> state" where
  "updateMetrics success s =
     (let m = metrics s;
          m1 = m\<lparr>totalExecutions := fadd (totalExecutions m) 1\<rparr>;
          m2 = (if success then m1\<lparr>successRate := min 95 (fadd (successRate m1) (1 / 2))\<rparr>
                else m1\<lparr>successRate := max 70 (fsub (successRate m1) 1)\<rparr>);
          m3 = m2\<lparr>queueDepth := max 0 (fsub (queueDepth m2) 1)\<rparr>
      in s\<lparr>metrics := m3\<rparr>)"

subsection \<open>executeDAG\<close>

text \<open>
  The engine's map \<open>executions\<close> holds a reference to the object \<open>execution\<close>, so every
  later assignment to the object shows through the map: \<open>store\<close> writes the contents through.
\<close>

definition store :: "execution \<Rightarrow> state \<Rightarrow> state" where
  "store e s = s\<lparr>executions := (executions s)(ex_id e \<mapsto> e)\<rparr>"

text \<open>
  The assignment \<open>execution.tasks[key] = value\<close>. It creates or overwrites the own property
  \<open>key\<close> for every key but one: \<open>__proto__\<close> names the accessor that \<open>tasks\<close> inherits from
  \<open>Object.prototype\<close>, whose setter makes the value (an object) the prototype of \<open>tasks\<close> and
  creates no property.

  The assignments to the fields of \<open>taskExecution\<close> that follow in the loop body (status,
  end time, error) change the same object, which \<open>tasks\<close> refers to: the model writes the new
  contents of the object through, in the same way.
\<close>

definition assign_task :: "string \<Rightarrow> task_execution \<Rightarrow> execution \<Rightarrow> execution" where
  "assign_task key v e =
     (if key = ''__proto__'' then e\<lparr>ex_tasks_proto := Some v\<rparr>
      else e\<lparr>ex_tasks := (ex_tasks e)(key \<mapsto> v)\<rparr>)"

text \<open>
  The body of the \<open>for (const task of dag.tasks)\<close> loop inside \<open>try\<close>. The result \<open>Thrown m\<close> is
  an exception on its way to the \<open>catch\<close> clause, with the objects as they are at that moment.
\<close>

fun run_tasks :: "nat \<Rightarrow> world \<Rightarrow> task_def list \<Rightarrow> execution \<Rightarrow> state
    \<Rightarrow> (outcome \<times> execution \<times> state) option" where
  "run_tasks fuel w [] e s = Some (Normal, e, s)"
| "run_tasks fuel w (task # rest) e s =
     (let (t, s1) = now w s;
          taskExecution = \<lparr> te_id = td_id task, te_status = ''running'', te_startTime = t,
                            te_retries = 0, te_endTime = None, te_error = None \<rparr>;
          e1 = assign_task (td_id task) taskExecution e;
          s2 = store e1 s1
      in case notify fuel w \<lparr> ev_type = ''task_started'', ev_execution = e1,
                              ev_task = Some taskExecution \<rparr> s2 of
           None \<Rightarrow> None
         | Some (Thrown m, s3) \<Rightarrow> Some (Thrown m, e1, s3)
         | Some (Normal, s3) \<Rightarrow>
             (let (d, s4) = random w s3;
                  s5 = s4\<lparr>timers := timers s4 @ [fadd 1000 (fmul d 2000)]\<rparr>;
                  (r, s6) = random w s5
              in if lit_0_15 < r then
                   (let (t', s7) = now w s6;
                        te2 = taskExecution\<lparr>te_status := ''completed'', te_endTime := Some t'\<rparr>;
                        e2 = assign_task (td_id task) te2 e1;
                        s8 = store e2 s7
                    in case notify fuel w \<lparr> ev_type = ''task_completed'', ev_execution = e2,
                                            ev_task = Some te2 \<rparr> s8 of
                         None \<Rightarrow> None
                       | Some (Thrown m, s9) \<Rightarrow> Some (Thrown m, e2, s9)
                       | Some (Normal, s9) \<Rightarrow> run_tasks fuel w rest e2 s9)
                 else
                   (let (t', s7) = now w s6;
                        te2 = taskExecution\<lparr>te_status := ''failed'', te_endTime := Some t',
                                            te_error := Some ''Task execution failed''\<rparr>;
                        e2 = assign_task (td_id task) te2 e1
                    in Some (Thrown ''Task failed'', e2, store e2 s7))))"

text \<open>
  \<open>executeDAG\<close> is an \<open>async\<close> function: \<open>Inr\<close> is the record its promise resolves to, \<open>Inl\<close> the
  message of the exception the promise is rejected with, and \<open>None\<close> a delivery that reached
  the bound on visited entries.
\<close>

definition executeDAG :: "nat \<Rightarrow> world \<Rightarrow> dag \<Rightarrow> state \<Rightarrow> ((string + execution) \<times> state) option" where
  "executeDAG fuel w d s =
     (let (t0, s1) = now w s;
          executionId = toString t0;
          (t1, s2) = now w s1;
          (r, s3) = random w s2;
          e = \<lparr> ex_id = executionId, ex_dag = dag_id d, ex_status = ''running'',
                ex_startTime = t1, ex_tasks = Map.empty, ex_tasks_proto = None,
                ex_cost = fadd (fmul r 50) 25,
                ex_error = None, ex_endTime = None \<rparr>;
          s4 = store e s3
      in case notify fuel w \<lparr> ev_type = ''execution_started'', ev_execution = e,
                              ev_task = None \<rparr> s4 of
           None \<Rightarrow> None
         | Some (Thrown m, s5) \<Rightarrow> Some (Inl m, s5)
         | Some (Normal, s5) \<Rightarrow>
             (case run_tasks fuel w (dag_tasks d) e s5 of
                None \<Rightarrow> None
              | Some (res, e1, s6) \<Rightarrow>
                  (let (e2, s8) =
                         (case res of
                            Normal \<Rightarrow>
                              (let (t2, s7) = now w s6;
                                   e2 = e1\<lparr>ex_status := ''completed'', ex_endTime := Some t2\<rparr>
                               in (e2, updateMetrics True (store e2 s7)))
                          | Thrown m \<Rightarrow>
                              (let (t2, s7) = now w s6;
                                   e2 = e1\<lparr>ex_status := ''failed'', ex_error := Some m,
                                           ex_endTime := Some t2\<rparr>
                               in (e2, updateMetrics False (store e2 s7))))
                   in case notify fuel w \<lparr> ev_type = ''execution_completed'', ev_execution = e2,
                                           ev_task = None \<rparr> s8 of
                        None \<Rightarrow> None
                      | Some (Thrown m, s9) \<Rightarrow> Some (Inl m, s9)
                      | Some (Normal, s9) \<Rightarrow> Some (Inr e2, s9))))"

subsection \<open>Names for the parts of a run\<close>

text \<open>
  The statements below name the objects and states that one run goes through. Each name
  stands for a term of \<open>run_tasks\<close> or \<open>executeDAG\<close> above: the task record as it is created,
  after success and after failure; the execution record after the assignment of a task
  record to \<open>execution.tasks\<close> under its id; the two kinds of events; the state after the
  simulated work of a task (a delay computed from one random value and handed to
  \<open>setTimeout\<close>, a second random value read for the outcome, the clock read for \<open>endTime\<close>).
\<close>

definition te_running :: "task_def \<Rightarrow> nat \<Rightarrow> task_execution" where
  "te_running t start = \<lparr> te_id = td_id t, te_status = ''running'', te_startTime = start,
                          te_retries = 0, te_endTime = None, te_error = None \<rparr>"

definition te_completed :: "task_def \<Rightarrow> nat \<Rightarrow> nat \<Rightarrow> task_execution" where
  "te_completed t start fin = \<lparr> te_id = td_id t, te_status = ''completed'', te_startTime = start,
                          te_retries = 0, te_endTime = Some fin, te_error = None \<rparr>"

definition te_failed :: "task_def \<Rightarrow> nat \<Rightarrow> nat \<Rightarrow> task_execution" where
  "te_failed t start fin = \<lparr> te_id = td_id t, te_status = ''failed'', te_startTime = start,
                          te_retries = 0, te_endTime = Some fin,
                          te_error = Some ''Task execution failed'' \<rparr>"

definition put_task :: "task_execution \<Rightarrow> execution \<Rightarrow> execution" where
  "put_task te e = assign_task (te_id te) te e"

definition task_event :: "string \<Rightarrow> execution \<Rightarrow> task_execution \<Rightarrow> event" where
  "task_event ty e te = \<lparr> ev_type = ty, ev_execution = e, ev_task = Some te \<rparr>"

definition run_event :: "string \<Rightarrow> execution \<Rightarrow> event" where
  "run_event ty e = \<lparr> ev_type = ty, ev_execution = e, ev_task = None \<rparr>"

definition worked :: "world \<Rightarrow> state \<Rightarrow> state" where
  "worked w s = s\<lparr>timers := timers s @ [fadd 1000 (fmul (rnd w (rix s)) 2000)],
                   rix := Suc (Suc (rix s)), cix := Suc (cix s)\<rparr>"

text \<open>
  The record created at the start of \<open>executeDAG\<close>, the state in which \<open>execution_started\<close>
  is published, the record after the \<open>try\<close> statement (\<open>Thrown m\<close>: after the \<open>catch\<close>
  clause), and the state in which \<open>execution_completed\<close> is published.
\<close>

definition new_execution :: "world \<Rightarrow> dag \<Rightarrow> state \<Rightarrow> execution" where
  "new_execution w d s =
     \<lparr> ex_id = toString (clk w (cix s)), ex_dag = dag_id d, ex_status = ''running'',
       ex_startTime = clk w (Suc (cix s)), ex_tasks = Map.empty, ex_tasks_proto = None,
       ex_cost = fadd (fmul (rnd w (rix s)) 50) 25, ex_error = None, ex_endTime = None \<rparr>"

definition started_state :: "world \<Rightarrow> dag \<Rightarrow> state \<Rightarrow> state" where
  "started_state w d s =
     store (new_execution w d s) (snd (random w (snd (now w (snd (now w s))))))"

definition finished :: "outcome \<Rightarrow> nat \<Rightarrow> execution \<Rightarrow> execution" where
  "finished res t e =
     (case res of
        Normal \<Rightarrow> e\<lparr>ex_status := ''completed'', ex_endTime := Some t\<rparr>
      | Thrown m \<Rightarrow> e\<lparr>ex_status := ''failed'', ex_error := Some m, ex_endTime := Some t\<rparr>)"

definition finished_state :: "world \<Rightarrow> outcome \<Rightarrow> execution \<Rightarrow> state \<Rightarrow> state" where
  "finished_state w res e s = updateMetrics (res = Normal) (store e (snd (now w s)))"

subsection \<open>Observations\<close>

text \<open>
  What a statement reads off a result: the record a run returns; the task record that the
  expression \<open>execution.tasks[key]\<close> evaluates to (an own property of \<open>tasks\<close>, or for the key
  \<open>__proto__\<close> its prototype; \<open>None\<close> when the expression evaluates to anything else); the type
  of an event and the task it is about; the ids of the \<open>task_started\<close> events of a history;
  the callbacks a subscriber set holds, in subscription order.
\<close>

definition task_record :: "execution \<Rightarrow> string \<Rightarrow> task_execution option" where
  "task_record e key = (if key = ''__proto__'' then ex_tasks_proto e else ex_tasks e key)"

definition returned :: "((string + execution) \<times> state) option \<Rightarrow> execution option" where
  "returned r = (case r of Some (Inr e, s) \<Rightarrow> Some e | _ \<Rightarrow> None)"

definition evsig :: "event \<Rightarrow> string \<times> string option" where
  "evsig ev = (ev_type ev, map_option te_id (ev_task ev))"

definition started_tasks :: "event list \<Rightarrow> string list" where
  "started_tasks evs =
     map (\<lambda>ev. case ev_task ev of Some te \<Rightarrow> te_id te | None \<Rightarrow> [])
       (filter (\<lambda>ev. ev_type ev = ''task_started'') evs)"

definition entries :: "cb option list \<Rightarrow> cb list" where
  "entries es = concat (map (\<lambda>e. case e of None \<Rightarrow> [] | Some c \<Rightarrow> [c]) es)"


subsection \<open>Concrete inputs\<close>

text \<open>
  The first DAG of \<open>SAMPLE_DAGS\<close>, a DAG of one task, and a DAG of one task whose id is
  \<open>__proto__\<close>.
\<close>

definition data_pipeline :: dag where
  "data_pipeline =
     \<lparr> dag_id = ''data_pipeline'', dag_name = ''Data Processing Pipeline'',
       dag_description = ''ETL pipeline for customer data'', dag_version = ''1.2.0'',
       dag_tasks =
         [\<lparr> td_id = ''extract'', td_name = ''Extract'', td_type = ''extract'', td_retries = 2 \<rparr>,
          \<lparr> td_id = ''validate'', td_name = ''Validate'', td_type = ''validation'', td_retries = 1 \<rparr>,
          \<lparr> td_id = ''transform'', td_name = ''Transform'', td_type = ''transformation'',
            td_retries = 3 \<rparr>,
          \<lparr> td_id = ''load'', td_name = ''Load'', td_type = ''load'', td_retries = 2 \<rparr>],
       dag_dependencies =
         [(''validate'', [''extract'']), (''transform'', [''validate'']),
          (''load'', [''transform''])] \<rparr>"

definition one_task :: dag where
  "one_task =
     \<lparr> dag_id = ''one'', dag_name = ''One'', dag_description = ''a single task'',
       dag_version = ''1.0.0'',
       dag_tasks = [\<lparr> td_id = ''extract'', td_name = ''Extract'', td_type = ''extract'',
                      td_retries = 2 \<rparr>],
       dag_dependencies = [] \<rparr>"

definition proto_task :: dag where
  "proto_task =
     \<lparr> dag_id = ''proto'', dag_name = ''Proto'', dag_description = ''a single task'',
       dag_version = ''1.0.0'',
       dag_tasks = [\<lparr> td_id = ''__proto__'', td_name = ''Extract'', td_type = ''extract'',
                      td_retries = 2 \<rparr>],
       dag_dependencies = [] \<rparr>"

text \<open>
  Worlds whose clock counts 0, 1, 2, ...: one whose callbacks leave the engine alone,
  with a given random source; one whose callbacks each call their own unsubscribe
  function; one in which callback 0 calls the unsubscribe function of callback 1; one
  whose callbacks each unsubscribe and subscribe themselves again; one in which callback 1
  calls the unsubscribe function of callback 0 and subscribes it again.
\<close>

definition quiet_world :: "(nat \<Rightarrow> rat) \<Rightarrow> world" where
  "quiet_world r = \<lparr> rnd = r, clk = (\<lambda>n. n), handler = (\<lambda>c ev. []) \<rparr>"




definition reviving_world :: world where
  "reviving_world =
     \<lparr> rnd = (\<lambda>_. 1 / 2), clk = (\<lambda>n. n),
       handler = (\<lambda>c ev. if c = 1 then [Unsubscribe 0, Subscribe 0] else []) \<rparr>"

text \<open>An event to deliver, and the largest binary64 value below 1, \<open>1 - 2 ^ -53\<close>.\<close>

definition demo_event :: event where
  "demo_event = run_event ''execution_started''
                  (new_execution (quiet_world (\<lambda>_. 1 / 2)) one_task (constructor 0 0))"

definition largest_below_one :: rat where
  "largest_below_one = 1 - 1 / 9007199254740992"

section \<open>Properties\<close>

subsection \<open>Rounding to binary64\<close>

lemma ilog2_nonneg: "0 \<le> ilog2 n"
  by (induction n rule: ilog2.induct) (subst ilog2.simps, simp)

lemma ilog2_le: "n < 2 ^ Suc k \<Longrightarrow> ilog2 n \<le> int k"
proof (induction k arbitrary: n)
  case 0
  then show ?case by (subst ilog2.simps) simp
next
  case (Suc k)
  show ?case
  proof (cases "n < 2")
    case True
    then show ?thesis by (subst ilog2.simps) simp
  next
    case False
    have "n div 2 < 2 ^ Suc k" using Suc.prems by simp
    then have "ilog2 (n div 2) \<le> int k" by (rule Suc.IH)
    with False show ?thesis by (subst ilog2.simps) simp
  qed
qed

lemma rne_cases: "rne q = \<lfloor>q\<rfloor> \<or> (rne q = \<lfloor>q\<rfloor> + 1 \<and> of_int \<lfloor>q\<rfloor> < q)"
  by (auto simp: rne_def Let_def)

lemma rne_ge:
  assumes "of_int m \<le> q"
  shows "m \<le> rne q"
proof -
  have "m \<le> \<lfloor>q\<rfloor>" using assms by (simp add: le_floor_iff)
  with rne_cases[of q] show ?thesis by auto
qed

lemma rne_le:
  assumes "q \<le> of_int m"
  shows "rne q \<le> m"
proof -
  have f: "\<lfloor>q\<rfloor> \<le> m" using assms by (simp add: floor_le_iff)
  from rne_cases[of q] show ?thesis
  proof
    assume "rne q = \<lfloor>q\<rfloor>"
    with f show ?thesis by simp
  next
    assume a: "rne q = \<lfloor>q\<rfloor> + 1 \<and> of_int \<lfloor>q\<rfloor> < q"
    then have "(of_int \<lfloor>q\<rfloor> :: rat) < of_int m" using assms by linarith
    then have "\<lfloor>q\<rfloor> < m" by (simp only: of_int_less_iff)
    with a show ?thesis by simp
  qed
qed

lemma flog2_le:
  assumes "a < 2 ^ Suc k"
  shows "flog2 a \<le> int k"
proof (cases "1 \<le> a")
  case True
  have "\<lfloor>a\<rfloor> < 2 ^ Suc k"
    using assms by (simp add: floor_less_iff)
  then have "ilog2 \<lfloor>a\<rfloor> \<le> int k" by (rule ilog2_le)
  with True show ?thesis by (simp add: flog2_def)
next
  case False
  have "0 \<le> ilog2 (\<lceil>1 / a\<rceil> - 1)" by (rule ilog2_nonneg)
  with False show ?thesis by (simp add: flog2_def)
qed

lemma ulp_small:
  assumes "a < 2 ^ 52"
  shows "\<exists>j. ulp a = 1 / 2 ^ j"
proof -
  have "a < 2 ^ Suc 51" using assms by simp
  then have "flog2 a \<le> int 51" by (rule flog2_le)
  then have le: "max (flog2 a) (- 1022) - 52 \<le> 0" by simp
  define z where "z = max (flog2 a) (- 1022) - 52"
  have "ulp a = 2 powi z" by (simp add: ulp_def z_def)
  also have "\<dots> = 1 / 2 ^ nat (- z)"
    using le unfolding z_def[symmetric] by (simp add: power_int_def field_simps)
  finally show ?thesis by blast
qed

lemma fround_ge_int:
  assumes "0 < x" "x < 2 ^ 52" "of_int c \<le> x"
  shows "of_int c \<le> fround x"
proof -
  obtain j where u: "ulp x = 1 / 2 ^ j" using ulp_small[OF assms(2)] by blast
  have d: "x / ulp x = x * 2 ^ j" by (simp add: u)
  have "of_int c * 2 ^ j \<le> x * (2 ^ j :: rat)"
    using assms(3) by (intro mult_right_mono) simp_all
  then have "of_int (c * 2 ^ j) \<le> x / ulp x" by (simp add: d)
  then have "c * 2 ^ j \<le> rne (x / ulp x)" by (rule rne_ge)
  then have "(of_int (c * 2 ^ j) :: rat) \<le> of_int (rne (x / ulp x))" by (simp only: of_int_le_iff)
  then have "of_int c * 2 ^ j \<le> (of_int (rne (x / ulp x)) :: rat)" by simp
  then have "of_int c \<le> of_int (rne (x / ulp x)) / (2 ^ j :: rat)"
    by (simp add: pos_le_divide_eq)
  then show ?thesis using assms(1) by (simp add: fround_def u)
qed

lemma fround_le_int:
  assumes "0 < x" "x < 2 ^ 52" "x \<le> of_int c"
  shows "fround x \<le> of_int c"
proof -
  obtain j where u: "ulp x = 1 / 2 ^ j" using ulp_small[OF assms(2)] by blast
  have d: "x / ulp x = x * 2 ^ j" by (simp add: u)
  have "x * (2 ^ j :: rat) \<le> of_int c * 2 ^ j"
    using assms(3) by (intro mult_right_mono) simp_all
  then have "x / ulp x \<le> of_int (c * 2 ^ j)" by (simp add: d)
  then have "rne (x / ulp x) \<le> c * 2 ^ j" by (rule rne_le)
  then have "(of_int (rne (x / ulp x)) :: rat) \<le> of_int (c * 2 ^ j)" by (simp only: of_int_le_iff)
  then have "(of_int (rne (x / ulp x)) :: rat) \<le> of_int c * 2 ^ j" by simp
  then have "of_int (rne (x / ulp x)) / (2 ^ j :: rat) \<le> of_int c"
    by (simp add: pos_divide_le_eq)
  then show ?thesis using assms(1) by (simp add: fround_def u)
qed

lemma fround_0 [simp]: "fround 0 = 0"
  by (simp add: fround_def)

text \<open>
  The exponent \<open>flog2\<close> is the floor of the binary logarithm, and the rounding gives the
  binary64 values of two decimal literals: \<open>0.15\<close>, used by \<open>executeDAG\<close>, and \<open>0.1\<close>.
\<close>

lemma ilog2_bounds:
  "1 \<le> n \<Longrightarrow> 2 ^ nat (ilog2 n) \<le> n \<and> n < 2 ^ Suc (nat (ilog2 n))"
proof (induction n rule: ilog2.induct)
  case (1 n)
  show ?case
  proof (cases "n < 2")
    case True
    with "1.prems" have "n = 1" by simp
    then show ?thesis by (subst (1 2) ilog2.simps) simp
  next
    case False
    then have h: "1 \<le> n div 2" by simp
    from "1.IH"[OF False h] have
      lo: "2 ^ nat (ilog2 (n div 2)) \<le> n div 2" and hi: "n div 2 < 2 ^ Suc (nat (ilog2 (n div 2)))"
      by simp_all
    have e: "nat (ilog2 n) = Suc (nat (ilog2 (n div 2)))"
      using False ilog2_nonneg[of "n div 2"] by (subst ilog2.simps) (simp add: nat_add_distrib)
    have "2 * 2 ^ nat (ilog2 (n div 2)) \<le> 2 * (n div 2)" using lo by simp
    also have "\<dots> \<le> n" by simp
    finally have a: "2 ^ nat (ilog2 n) \<le> n" by (simp add: e)
    have "n div 2 + 1 \<le> 2 ^ Suc (nat (ilog2 (n div 2)))" using hi by simp
    then have "2 * (n div 2 + 1) \<le> 2 * 2 ^ Suc (nat (ilog2 (n div 2)))" by simp
    moreover have "n < 2 * (n div 2 + 1)" by simp
    ultimately have b: "n < 2 ^ Suc (nat (ilog2 n))" by (simp add: e)
    from a b show ?thesis by blast
  qed
qed

lemma flog2_bounds:
  assumes "0 < a"
  shows "2 powi flog2 a \<le> a \<and> a < 2 powi (flog2 a + 1)"
proof (cases "1 \<le> a")
  case True
  define n where "n = \<lfloor>a\<rfloor>"
  define k where "k = nat (ilog2 n)"
  have n: "1 \<le> n" using True by (simp add: n_def le_floor_iff)
  from ilog2_bounds[OF n] have lo: "2 ^ k \<le> n" and hi: "n < 2 ^ Suc k" by (simp_all add: k_def)
  have f: "flog2 a = int k"
    using True ilog2_nonneg[of n] by (simp add: flog2_def n_def k_def)
  have "(of_int (2 ^ k) :: rat) \<le> of_int n" using lo by (simp only: of_int_le_iff)
  also have "\<dots> \<le> a" by (simp add: n_def)
  finally have a1: "2 ^ k \<le> a" by simp
  have "n + 1 \<le> 2 ^ Suc k" using hi by simp
  then have "(of_int (n + 1) :: rat) \<le> of_int (2 ^ Suc k)" by (simp only: of_int_le_iff)
  moreover have "a < of_int (n + 1)" unfolding n_def by linarith
  ultimately have a2: "a < 2 ^ Suc k" by simp
  have p: "int k + 1 = int (Suc k)" by simp
  show ?thesis using a1 a2 unfolding f p power_int_of_nat by simp
next
  case False
  define b where "b = 1 / a"
  define m where "m = \<lceil>b\<rceil> - 1"
  define k where "k = nat (ilog2 m)"
  have b1: "1 < b" using assms False by (simp add: b_def)
  then have "1 < \<lceil>b\<rceil>" by (simp add: less_ceiling_iff)
  then have m1: "1 \<le> m" by (simp add: m_def)
  from ilog2_bounds[OF m1] have lo: "2 ^ k \<le> m" and hi: "m < 2 ^ Suc k" by (simp_all add: k_def)
  have f: "flog2 a = - int (Suc k)"
    using False ilog2_nonneg[of m] by (simp add: flog2_def m_def k_def b_def)
  have "(of_int (2 ^ k) :: rat) \<le> of_int m" using lo by (simp only: of_int_le_iff)
  also have "\<dots> < b" unfolding m_def by simp linarith
  finally have l: "2 ^ k < b" by simp
  have "m + 1 \<le> 2 ^ Suc k" using hi by simp
  then have "(of_int (m + 1) :: rat) \<le> of_int (2 ^ Suc k)" by (simp only: of_int_le_iff)
  moreover have "b \<le> of_int (m + 1)" unfolding m_def by simp
  ultimately have u: "b \<le> 2 ^ Suc k" by simp
  have a_eq: "a = 1 / b" using assms by (simp add: b_def)
  have bpos: "0 < b" using b1 by simp
  have a1: "1 / 2 ^ Suc k \<le> a"
    unfolding a_eq using u bpos by (simp add: field_simps)
  have a2: "a < 1 / 2 ^ k"
    unfolding a_eq using l bpos by (simp add: field_simps)
  have p1: "(2::rat) powi (- int (Suc k)) = 1 / 2 ^ Suc k"
    by (simp only: power_int_minus power_int_of_nat inverse_eq_divide)
  have "- int (Suc k) + 1 = - int k" by simp
  then have p2: "(2::rat) powi (- int (Suc k) + 1) = 1 / 2 ^ k"
    by (simp only: power_int_minus power_int_of_nat inverse_eq_divide)
  show ?thesis unfolding f p1 p2 using a1 a2 by simp
qed

lemma lit_0_15_rounded: "fround (15 / 100) = lit_0_15"
  by code_simp

lemma fround_tenth: "fround (1 / 10) = 3602879701896397 / 36028797018963968"
  by code_simp

subsection \<open>The success rate\<close>

lemma updateMetrics_successRate:
  assumes "70 \<le> successRate (metrics s)" "successRate (metrics s) \<le> 95"
  shows "70 \<le> successRate (metrics (updateMetrics b s))
       \<and> successRate (metrics (updateMetrics b s)) \<le> 95"
proof (cases b)
  case True
  have "of_int 70 \<le> fround (successRate (metrics s) + 1 / 2)"
    by (rule fround_ge_int) (use assms in simp_all)
  with True show ?thesis by (simp add: updateMetrics_def Let_def fadd_def)
next
  case False
  have "fround (successRate (metrics s) - 1) \<le> of_int 95"
    by (rule fround_le_int) (use assms in simp_all)
  with False show ?thesis by (simp add: updateMetrics_def Let_def fsub_def)
qed

lemma foldl_updateMetrics_successRate:
  assumes "70 \<le> successRate (metrics s)" "successRate (metrics s) \<le> 95"
  shows "70 \<le> successRate (metrics (foldl (\<lambda>s b. updateMetrics b s) s bs))
       \<and> successRate (metrics (foldl (\<lambda>s b. updateMetrics b s) s bs)) \<le> 95"
  using assms
proof (induction bs arbitrary: s)
  case Nil
  then show ?case by simp
next
  case (Cons b bs)
  have "70 \<le> successRate (metrics (updateMetrics b s))
      \<and> successRate (metrics (updateMetrics b s)) \<le> 95"
    using Cons.prems by (rule updateMetrics_successRate)
  then show ?case using Cons.IH[of "updateMetrics b s"] by simp
qed

text \<open>
  Claim C2. From the state the constructor builds (success rate 85), after any finite
  sequence of calls of \<open>updateMetrics\<close> with arbitrary outcomes, the success rate is at
  least 70 and at most 95.
\<close>

theorem successRate_bounded:
  "70 \<le> successRate (metrics (foldl (\<lambda>s b. updateMetrics b s) (constructor r c) bs))
   \<and> successRate (metrics (foldl (\<lambda>s b. updateMetrics b s) (constructor r c) bs)) \<le> 95"
  by (rule foldl_updateMetrics_successRate) (simp_all add: constructor_def)

subsection \<open>Deliveries\<close>

text \<open>
  A delivery changes the subscriber set and the histories only; it throws only when a
  callback does; it depends on the world through its callbacks only; and it ends, within
  the number of entries of the set, when no callback subscribes or throws.
\<close>

lemma run_actions_frame:
  "run_actions as s = (r, s') \<Longrightarrow>
     executions s' = executions s \<and> metrics s' = metrics s \<and> rix s' = rix s \<and> cix s' = cix s
     \<and> published s' = published s \<and> delivered s' = delivered s \<and> timers s' = timers s"
  by (induction as s rule: run_actions.induct) (auto simp: subscribe_def unsubscribe_def)

lemma run_actions_no_throw:
  "\<forall>m. Throw m \<notin> set as \<Longrightarrow> fst (run_actions as s) = Normal"
  by (induction as s rule: run_actions.induct) auto

lemma forEach_frame:
  "forEach fuel w ev i s = Some (r, s') \<Longrightarrow>
     executions s' = executions s \<and> metrics s' = metrics s \<and> rix s' = rix s \<and> cix s' = cix s
     \<and> published s' = published s \<and> timers s' = timers s"
proof (induction fuel w ev i s rule: forEach.induct)
  case (1 w ev i s)
  then show ?case by simp
next
  case (2 fuel w ev i s)
  show ?case
  proof (cases "i < length (subscribers s)")
    case False
    with "2.prems" show ?thesis by simp
  next
    case True
    show ?thesis
    proof (cases "subscribers s ! i")
      case None
      with True "2.prems" have "forEach fuel w ev (Suc i) s = Some (r, s')" by simp
      with "2.IH"(1)[OF True None] show ?thesis by simp
    next
      case (Some c)
      obtain r1 s1 where ra: "run_actions (handler w c ev)
          (s\<lparr>delivered := delivered s @ [(c, ev)]\<rparr>) = (r1, s1)" by force
      note f1 = run_actions_frame[OF ra]
      show ?thesis
      proof (cases r1)
        case Normal
        with True Some ra "2.prems" have "forEach fuel w ev (Suc i) s1 = Some (r, s')" by simp
        from "2.IH"(2)[OF True Some ra[symmetric] _ this] Normal f1
        show ?thesis by simp
      next
        case (Thrown m)
        with True Some ra "2.prems" have "s' = s1" by simp
        with f1 show ?thesis by simp
      qed
    qed
  qed
qed

lemma forEach_no_throw:
  "forEach fuel w ev i s = Some (r, s') \<Longrightarrow> \<forall>c m. Throw m \<notin> set (handler w c ev) \<Longrightarrow> r = Normal"
proof (induction fuel w ev i s rule: forEach.induct)
  case (1 w ev i s)
  then show ?case by simp
next
  case (2 fuel w ev i s)
  show ?case
  proof (cases "i < length (subscribers s)")
    case False
    with "2.prems" show ?thesis by simp
  next
    case True
    show ?thesis
    proof (cases "subscribers s ! i")
      case None
      with True "2.prems" have "forEach fuel w ev (Suc i) s = Some (r, s')" by simp
      with "2.IH"(1)[OF True None] "2.prems"(2) show ?thesis by simp
    next
      case (Some c)
      obtain r1 s1 where ra: "run_actions (handler w c ev)
          (s\<lparr>delivered := delivered s @ [(c, ev)]\<rparr>) = (r1, s1)" by force
      have "fst (run_actions (handler w c ev) (s\<lparr>delivered := delivered s @ [(c, ev)]\<rparr>)) = Normal"
        by (rule run_actions_no_throw) (use "2.prems"(2) in simp)
      with ra have n: "r1 = Normal" by simp
      with True Some ra "2.prems" have "forEach fuel w ev (Suc i) s1 = Some (r, s')" by simp
      from "2.IH"(2)[OF True Some ra[symmetric] _ this] n "2.prems"(2)
      show ?thesis by simp
    qed
  qed
qed

lemma notify_frame:
  "notify fuel w ev s = Some (r, s') \<Longrightarrow>
     executions s' = executions s \<and> metrics s' = metrics s \<and> rix s' = rix s \<and> cix s' = cix s
     \<and> published s' = published s @ [ev] \<and> timers s' = timers s"
  unfolding notify_def by (drule forEach_frame) simp

lemma notify_no_throw:
  "notify fuel w ev s = Some (r, s') \<Longrightarrow> \<forall>c m. Throw m \<notin> set (handler w c ev) \<Longrightarrow> r = Normal"
  unfolding notify_def by (rule forEach_no_throw)

lemma forEach_handler_cong:
  assumes h: "handler w1 = handler w2"
  shows "forEach fuel w1 ev i s = forEach fuel w2 ev i s"
proof (induction fuel arbitrary: i s)
  case 0
  show ?case by simp
next
  case (Suc fuel)
  have "forEach (Suc fuel) w1 ev i s =
     (if i < length (subscribers s) then
        (case subscribers s ! i of
           None \<Rightarrow> forEach fuel w1 ev (Suc i) s
         | Some callback \<Rightarrow>
             (case run_actions (handler w1 callback ev)
                     (s\<lparr>delivered := delivered s @ [(callback, ev)]\<rparr>) of
                (Thrown m, s') \<Rightarrow> Some (Thrown m, s')
              | (Normal, s') \<Rightarrow> forEach fuel w1 ev (Suc i) s'))
      else Some (Normal, s))" by (rule forEach.simps)
  also have "\<dots> = (if i < length (subscribers s) then
        (case subscribers s ! i of
           None \<Rightarrow> forEach fuel w2 ev (Suc i) s
         | Some callback \<Rightarrow>
             (case run_actions (handler w2 callback ev)
                     (s\<lparr>delivered := delivered s @ [(callback, ev)]\<rparr>) of
                (Thrown m, s') \<Rightarrow> Some (Thrown m, s')
              | (Normal, s') \<Rightarrow> forEach fuel w2 ev (Suc i) s'))
      else Some (Normal, s))" unfolding h Suc ..
  also have "\<dots> = forEach (Suc fuel) w2 ev i s" by (rule forEach.simps[symmetric])
  finally show ?case .
qed

lemma notify_handler_cong:
  "handler w1 = handler w2 \<Longrightarrow> notify fuel w1 ev s = notify fuel w2 ev s"
  unfolding notify_def by (rule forEach_handler_cong)

lemma length_set_delete [simp]: "length (set_delete c es) = length es"
  by (induction es) auto

lemma run_actions_length:
  "\<forall>c'. Subscribe c' \<notin> set as \<Longrightarrow>
     length (subscribers (snd (run_actions as s))) = length (subscribers s)"
  by (induction as s rule: run_actions.induct) (auto simp: unsubscribe_def)

lemma forEach_total:
  assumes "\<forall>c m. Throw m \<notin> set (handler w c ev)" "\<forall>c c'. Subscribe c' \<notin> set (handler w c ev)"
    and "length (subscribers s) - i < fuel"
  shows "\<exists>s'. forEach fuel w ev i s = Some (Normal, s')
           \<and> length (subscribers s') = length (subscribers s)"
  using assms(3)
proof (induction fuel arbitrary: i s)
  case 0
  then show ?case by simp
next
  case (Suc fuel)
  show ?case
  proof (cases "i < length (subscribers s)")
    case False
    then show ?thesis by simp
  next
    case True
    then have less: "length (subscribers s) - Suc i < fuel" using Suc.prems by simp
    show ?thesis
    proof (cases "subscribers s ! i")
      case None
      with True Suc.IH[OF less] show ?thesis by simp
    next
      case (Some c)
      let ?s1 = "s\<lparr>delivered := delivered s @ [(c, ev)]\<rparr>"
      obtain r1 s2 where ra: "run_actions (handler w c ev) ?s1 = (r1, s2)" by force
      have "fst (run_actions (handler w c ev) ?s1) = Normal"
        by (rule run_actions_no_throw) (use assms(1) in simp)
      with ra have r1: "r1 = Normal" by simp
      have "length (subscribers (snd (run_actions (handler w c ev) ?s1))) = length (subscribers ?s1)"
        by (rule run_actions_length) (use assms(2) in simp)
      with ra have len: "length (subscribers s2) = length (subscribers s)" by simp
      from less len have "length (subscribers s2) - Suc i < fuel" by simp
      from Suc.IH[OF this] obtain s' where
        "forEach fuel w ev (Suc i) s2 = Some (Normal, s')"
        "length (subscribers s') = length (subscribers s2)" by blast
      with True Some ra r1 len show ?thesis by simp
    qed
  qed
qed

lemma notify_total:
  assumes "\<forall>c m. Throw m \<notin> set (handler w c ev)" "\<forall>c c'. Subscribe c' \<notin> set (handler w c ev)"
    and "length (subscribers s) < fuel"
  shows "\<exists>s'. notify fuel w ev s = Some (Normal, s')
           \<and> length (subscribers s') = length (subscribers s)"
  unfolding notify_def
  using forEach_total[OF assms(1,2), of "s\<lparr>published := published s @ [ev]\<rparr>" 0 fuel] assms(3)
  by simp

subsection \<open>One iteration of the task loop\<close>

text \<open>
  What one iteration of the loop does when it ends: a callback threw on \<open>task_started\<close>; the
  task completed and a callback threw on \<open>task_completed\<close>; the task completed and the loop
  went on; the task failed.
\<close>

lemma assign_task_twice [simp]: "assign_task key v (assign_task key u e) = assign_task key v e"
  by (simp add: assign_task_def)

lemmas step_defs = te_running_def te_completed_def te_failed_def put_task_def task_event_def
  worked_def

lemma run_tasks_ConsE [consumes 1, case_names throw_started throw_completed completed failed]:
  fixes w :: world and t :: task_def and e :: execution and s :: state
  defines "te \<equiv> te_running t (clk w (cix s))"
  defines "s2 \<equiv> store (put_task te e) (s\<lparr>cix := Suc (cix s)\<rparr>)"
  assumes run: "run_tasks fuel w (t # rest) e s = Some (res, e', s')"
  obtains
    (throw_started) m s3 where
      "notify fuel w (task_event ''task_started'' (put_task te e) te) s2 = Some (Thrown m, s3)"
      "res = Thrown m" "e' = put_task te e" "s' = s3"
  | (throw_completed) m s3 s9 tc where
      "notify fuel w (task_event ''task_started'' (put_task te e) te) s2 = Some (Normal, s3)"
      "lit_0_15 < rnd w (Suc (rix s3))"
      "tc = te_completed t (clk w (cix s)) (clk w (cix s3))"
      "notify fuel w (task_event ''task_completed'' (put_task tc e) tc)
         (store (put_task tc e) (worked w s3)) = Some (Thrown m, s9)"
      "res = Thrown m" "e' = put_task tc e" "s' = s9"
  | (completed) s3 s9 tc where
      "notify fuel w (task_event ''task_started'' (put_task te e) te) s2 = Some (Normal, s3)"
      "lit_0_15 < rnd w (Suc (rix s3))"
      "tc = te_completed t (clk w (cix s)) (clk w (cix s3))"
      "notify fuel w (task_event ''task_completed'' (put_task tc e) tc)
         (store (put_task tc e) (worked w s3)) = Some (Normal, s9)"
      "run_tasks fuel w rest (put_task tc e) s9 = Some (res, e', s')"
  | (failed) s3 tf where
      "notify fuel w (task_event ''task_started'' (put_task te e) te) s2 = Some (Normal, s3)"
      "\<not> lit_0_15 < rnd w (Suc (rix s3))"
      "tf = te_failed t (clk w (cix s)) (clk w (cix s3))"
      "res = Thrown ''Task failed''" "e' = put_task tf e"
      "s' = store (put_task tf e) (worked w s3)"
proof -
  let ?ev1 = "task_event ''task_started'' (put_task te e) te"
  obtain r1 s3 where n1: "notify fuel w ?ev1 s2 = Some (r1, s3)"
    using run by (cases "notify fuel w ?ev1 s2")
      (auto simp: Let_def now_def te_def s2_def step_defs)
  show ?thesis
  proof (cases r1)
    case (Thrown m)
    have "res = Thrown m \<and> e' = put_task te e \<and> s' = s3"
      using run n1 Thrown by (auto simp: Let_def now_def te_def s2_def step_defs)
    with n1 Thrown show ?thesis using throw_started by blast
  next
    case Normal
    note r1 = Normal
    define tc where "tc = te_completed t (clk w (cix s)) (clk w (cix s3))"
    define tf where "tf = te_failed t (clk w (cix s)) (clk w (cix s3))"
    show ?thesis
    proof (cases "lit_0_15 < rnd w (Suc (rix s3))")
      case True
      let ?ev2 = "task_event ''task_completed'' (put_task tc e) tc"
      let ?s8 = "store (put_task tc e) (worked w s3)"
      obtain r2 s9 where n2: "notify fuel w ?ev2 ?s8 = Some (r2, s9)"
        using run n1 r1 True by (cases "notify fuel w ?ev2 ?s8")
          (auto simp: Let_def now_def random_def te_def s2_def tc_def step_defs)
      show ?thesis
      proof (cases r2)
        case (Thrown m)
        have "res = Thrown m \<and> e' = put_task tc e \<and> s' = s9"
          using run n1 r1 True n2 Thrown
          by (auto simp: Let_def now_def random_def te_def s2_def tc_def step_defs)
        with n1 r1 n2 Thrown True tc_def show ?thesis using throw_completed by blast
      next
        case Normal
        have "run_tasks fuel w rest (put_task tc e) s9 = Some (res, e', s')"
          using run n1 r1 True n2 Normal
          by (simp add: Let_def now_def random_def te_def s2_def tc_def step_defs)
        with n1 r1 n2 Normal True tc_def show ?thesis using completed by blast
      qed
    next
      case False
      have "res = Thrown ''Task failed'' \<and> e' = put_task tf e
            \<and> s' = store (put_task tf e) (worked w s3)"
        using run n1 r1 False
        by (auto simp: Let_def now_def random_def te_def s2_def tf_def step_defs)
      with n1 r1 False tf_def show ?thesis using failed by blast
    qed
  qed
qed

lemma run_tasks_Cons_unfold:
  "run_tasks fuel w (t # rest) e s =
     (let te = te_running t (clk w (cix s)) in
      case notify fuel w (task_event ''task_started'' (put_task te e) te)
             (store (put_task te e) (s\<lparr>cix := Suc (cix s)\<rparr>)) of
         None \<Rightarrow> None
       | Some (Thrown m, s3) \<Rightarrow> Some (Thrown m, put_task te e, s3)
       | Some (Normal, s3) \<Rightarrow>
           (if lit_0_15 < rnd w (Suc (rix s3)) then
              (let tc = te_completed t (clk w (cix s)) (clk w (cix s3))
               in case notify fuel w (task_event ''task_completed'' (put_task tc e) tc)
                         (store (put_task tc e) (worked w s3)) of
                    None \<Rightarrow> None
                  | Some (Thrown m, s9) \<Rightarrow> Some (Thrown m, put_task tc e, s9)
                  | Some (Normal, s9) \<Rightarrow> run_tasks fuel w rest (put_task tc e) s9)
            else
              (let tf = te_failed t (clk w (cix s)) (clk w (cix s3))
               in Some (Thrown ''Task failed'', put_task tf e,
                        store (put_task tf e) (worked w s3)))))"
  by (simp add: Let_def now_def random_def step_defs
        split: option.splits prod.splits outcome.splits)

lemma evsig_task_event [simp]: "evsig (task_event ty e te) = (ty, Some (te_id te))"
  by (simp add: evsig_def task_event_def)

lemma te_id_simps [simp]:
  "te_id (te_running t a) = td_id t" "te_id (te_completed t a b) = td_id t"
  "te_id (te_failed t a b) = td_id t"
  by (simp_all add: step_defs)

lemma te_status_simps [simp]:
  "te_status (te_running t a) = ''running''" "te_status (te_completed t a b) = ''completed''"
  "te_status (te_failed t a b) = ''failed''"
  "te_error (te_running t a) = None" "te_error (te_completed t a b) = None"
  "te_error (te_failed t a b) = Some ''Task execution failed''"
  by (simp_all add: step_defs)

lemma put_task_fields [simp]:
  "ex_id (put_task te e) = ex_id e" "ex_dag (put_task te e) = ex_dag e"
  "ex_status (put_task te e) = ex_status e" "ex_startTime (put_task te e) = ex_startTime e"
  "ex_cost (put_task te e) = ex_cost e" "ex_error (put_task te e) = ex_error e"
  "ex_endTime (put_task te e) = ex_endTime e"
  by (simp_all add: put_task_def assign_task_def)

lemma task_record_put_task [simp]:
  "task_record (put_task te e) = (task_record e)(te_id te \<mapsto> te)"
  by (auto simp: put_task_def assign_task_def task_record_def fun_eq_iff)


lemma published_store [simp]: "published (store e s) = published s"
  by (simp add: store_def)

lemma published_worked [simp]: "published (worked w s) = published s"
  by (simp add: worked_def)

lemma subscribers_store [simp]: "subscribers (store e s) = subscribers s"
  by (simp add: store_def)

lemma subscribers_worked [simp]: "subscribers (worked w s) = subscribers s"
  by (simp add: worked_def)

lemma cix_store [simp]: "cix (store e s) = cix s" and rix_store [simp]: "rix (store e s) = rix s"
  by (simp_all add: store_def)

lemma cix_worked [simp]: "cix (worked w s) = Suc (cix s)"
  and rix_worked [simp]: "rix (worked w s) = Suc (Suc (rix s))"
  by (simp_all add: worked_def)

lemma run_tasks_fields:
  "run_tasks fuel w ts e s = Some (res, e', s') \<Longrightarrow>
     ex_id e' = ex_id e \<and> ex_dag e' = ex_dag e \<and> ex_status e' = ex_status e
     \<and> ex_startTime e' = ex_startTime e \<and> ex_cost e' = ex_cost e \<and> ex_error e' = ex_error e
     \<and> ex_endTime e' = ex_endTime e"
proof (induction ts arbitrary: e s)
  case Nil
  then show ?case by simp
next
  case (Cons t rest)
  from Cons.prems show ?case
  proof (cases rule: run_tasks_ConsE)
    case (completed s3 s9 tc)
    from Cons.IH[OF completed(5)] show ?thesis by simp
  qed simp_all
qed

lemma run_tasks_positions:
  assumes "run_tasks fuel w ts e s = Some (res, e', s')"
  shows "cix s \<le> cix s' \<and> cix s' \<le> cix s + 2 * length ts"
  using assms
proof (induction ts arbitrary: e s)
  case Nil
  then show ?case by simp
next
  case (Cons t rest)
  from Cons.prems show ?case
  proof (cases rule: run_tasks_ConsE)
    case (throw_started m s3)
    with notify_frame[OF throw_started(1)] show ?thesis by simp
  next
    case (throw_completed m s3 s9 tc)
    with notify_frame[OF throw_completed(1)] notify_frame[OF throw_completed(4)]
    show ?thesis by simp
  next
    case (completed s3 s9 tc)
    with notify_frame[OF completed(1)] notify_frame[OF completed(4)] Cons.IH[OF completed(5)]
    show ?thesis by simp
  next
    case (failed s3 tf)
    with notify_frame[OF failed(1)] show ?thesis by simp
  qed
qed

subsection \<open>The parts of executeDAG\<close>

lemma executeDAG_E [consumes 1, case_names throw_started finished]:
  assumes run: "executeDAG fuel w d s = Some (r, s')"
  obtains
    (throw_started) m where
      "notify fuel w (run_event ''execution_started'' (new_execution w d s))
         (started_state w d s) = Some (Thrown m, s')"
      "r = Inl m"
  | (finished) s5 res e1 s6 r9 e2 where
      "notify fuel w (run_event ''execution_started'' (new_execution w d s))
         (started_state w d s) = Some (Normal, s5)"
      "run_tasks fuel w (dag_tasks d) (new_execution w d s) s5 = Some (res, e1, s6)"
      "e2 = finished res (clk w (cix s6)) e1"
      "notify fuel w (run_event ''execution_completed'' e2) (finished_state w res e2 s6)
         = Some (r9, s')"
      "r = (case r9 of Normal \<Rightarrow> Inr e2 | Thrown m \<Rightarrow> Inl m)"
proof -
  let ?e0 = "new_execution w d s"
  let ?ev = "run_event ''execution_started'' ?e0"
  obtain r1 s5 where n1: "notify fuel w ?ev (started_state w d s) = Some (r1, s5)"
    using run by (cases "notify fuel w ?ev (started_state w d s)")
      (auto simp: executeDAG_def Let_def now_def random_def new_execution_def
         started_state_def run_event_def)
  show ?thesis
  proof (cases r1)
    case (Thrown m)
    have "r = Inl m \<and> s' = s5"
      using run n1 Thrown
      by (auto simp: executeDAG_def Let_def now_def random_def new_execution_def
         started_state_def run_event_def)
    with n1 Thrown show ?thesis using throw_started by blast
  next
    case Normal
    note r1 = Normal
    obtain res e1 s6 where rt: "run_tasks fuel w (dag_tasks d) ?e0 s5 = Some (res, e1, s6)"
      using run n1 r1 by (cases "run_tasks fuel w (dag_tasks d) ?e0 s5")
        (auto simp: executeDAG_def Let_def now_def random_def new_execution_def
           started_state_def run_event_def)
    define e2 where "e2 = finished res (clk w (cix s6)) e1"
    let ?ev9 = "run_event ''execution_completed'' e2"
    have unf: "executeDAG fuel w d s =
        (case notify fuel w ?ev9 (finished_state w res e2 s6) of
           None \<Rightarrow> None
         | Some (Thrown m, s9) \<Rightarrow> Some (Inl m, s9)
         | Some (Normal, s9) \<Rightarrow> Some (Inr e2, s9))"
      using n1 r1 rt
      by (cases res)
        (simp_all add: executeDAG_def Let_def now_def random_def new_execution_def
           started_state_def run_event_def e2_def finished_def finished_state_def
         split: option.splits outcome.splits)
    obtain r9 s9 where n9: "notify fuel w ?ev9 (finished_state w res e2 s6) = Some (r9, s9)"
      using run unf by (cases "notify fuel w ?ev9 (finished_state w res e2 s6)") auto
    have "s' = s9 \<and> r = (case r9 of Normal \<Rightarrow> Inr e2 | Thrown m \<Rightarrow> Inl m)"
      using run unf n9 by (cases r9) auto
    with n1 r1 rt e2_def n9 show ?thesis using finished by blast
  qed
qed

lemma executeDAG_unfold:
  "executeDAG fuel w d s =
     (case notify fuel w (run_event ''execution_started'' (new_execution w d s))
            (started_state w d s) of
        None \<Rightarrow> None
      | Some (Thrown m, s5) \<Rightarrow> Some (Inl m, s5)
      | Some (Normal, s5) \<Rightarrow>
          (case run_tasks fuel w (dag_tasks d) (new_execution w d s) s5 of
             None \<Rightarrow> None
           | Some (res, e1, s6) \<Rightarrow>
               (case notify fuel w
                       (run_event ''execution_completed'' (finished res (clk w (cix s6)) e1))
                       (finished_state w res (finished res (clk w (cix s6)) e1) s6) of
                  None \<Rightarrow> None
                | Some (Thrown m, s9) \<Rightarrow> Some (Inl m, s9)
                | Some (Normal, s9) \<Rightarrow> Some (Inr (finished res (clk w (cix s6)) e1), s9))))"
  by (auto simp: executeDAG_def Let_def now_def random_def new_execution_def
        started_state_def run_event_def finished_def finished_state_def
      split: option.splits prod.splits outcome.splits)

lemma updateMetrics_frame [simp]:
  "subscribers (updateMetrics b s) = subscribers s" "published (updateMetrics b s) = published s"
  "delivered (updateMetrics b s) = delivered s" "executions (updateMetrics b s) = executions s"
  "rix (updateMetrics b s) = rix s" "cix (updateMetrics b s) = cix s"
  by (simp_all add: updateMetrics_def Let_def)

lemma evsig_run_event [simp]: "evsig (run_event ty e) = (ty, None)"
  by (simp add: evsig_def run_event_def)

lemma finished_fields [simp]:
  "ex_tasks (finished res t e) = ex_tasks e" "ex_cost (finished res t e) = ex_cost e"
  "task_record (finished res t e) = task_record e"
  "ex_status (finished Normal t e) = ''completed''"
  "ex_status (finished (Thrown m) t e) = ''failed''"
  "ex_error (finished (Thrown m) t e) = Some m"
  by (cases res; simp add: finished_def task_record_def fun_eq_iff)+

lemma ex_error_finished_Normal [simp]: "ex_error (finished Normal t e) = ex_error e"
  by (simp add: finished_def)

lemma finished_state_frame [simp]:
  "published (finished_state w res e s) = published s"
  by (simp add: finished_state_def now_def)

lemma subscribers_finished_state [simp]:
  "subscribers (finished_state w res e s) = subscribers s"
  by (simp add: finished_state_def now_def)

lemma finished_state_world: "finished_state w1 res e s = finished_state w2 res e s"
  by (simp add: finished_state_def now_def)

lemma started_state_frame [simp]:
  "published (started_state w d s) = published s"
  by (simp add: started_state_def now_def random_def)

lemma subscribers_started_state [simp]:
  "subscribers (started_state w d s) = subscribers s"
  by (simp add: started_state_def now_def random_def)

lemma started_state_positions [simp]:
  "rix (started_state w d s) = Suc (rix s)" "cix (started_state w d s) = Suc (Suc (cix s))"
  by (simp_all add: started_state_def now_def random_def)

lemma new_execution_tasks [simp]:
  "ex_tasks (new_execution w d s) = Map.empty" "task_record (new_execution w d s) = Map.empty"
  by (simp_all add: new_execution_def task_record_def fun_eq_iff)

lemma ex_error_new [simp]: "ex_error (new_execution w d s) = None"
  by (simp add: new_execution_def)


subsection \<open>A run ends when no callback subscribes or throws\<close>

lemma run_tasks_total:
  assumes nt: "\<forall>c ev m. Throw m \<notin> set (handler w c ev)"
    and ns: "\<forall>c ev c'. Subscribe c' \<notin> set (handler w c ev)"
    and "length (subscribers s) < fuel"
  shows "\<exists>res e' s'. run_tasks fuel w ts e s = Some (res, e', s')
           \<and> length (subscribers s') = length (subscribers s)"
  using assms(3)
proof (induction ts arbitrary: e s)
  case Nil
  then show ?case by simp
next
  case (Cons t rest)
  define te where "te = te_running t (clk w (cix s))"
  define s2 where "s2 = store (put_task te e) (s\<lparr>cix := Suc (cix s)\<rparr>)"
  have l2: "length (subscribers s2) < fuel" using Cons.prems by (simp add: s2_def)
  from notify_total[OF _ _ l2, of w "task_event ''task_started'' (put_task te e) te"] nt ns
  obtain s3 where n1: "notify fuel w (task_event ''task_started'' (put_task te e) te) s2
        = Some (Normal, s3)"
    and l3: "length (subscribers s3) = length (subscribers s)" by (auto simp: s2_def)
  show ?case
  proof (cases "lit_0_15 < rnd w (Suc (rix s3))")
    case True
    define tc where "tc = te_completed t (clk w (cix s)) (clk w (cix s3))"
    define s8 where "s8 = store (put_task tc e) (worked w s3)"
    have l8: "length (subscribers s8) < fuel" using Cons.prems l3 by (simp add: s8_def)
    from notify_total[OF _ _ l8, of w "task_event ''task_completed'' (put_task tc e) tc"] nt ns
    obtain s9 where n2: "notify fuel w (task_event ''task_completed'' (put_task tc e) tc) s8
          = Some (Normal, s9)"
      and l9: "length (subscribers s9) = length (subscribers s)" using l3 by (auto simp: s8_def)
    from Cons.prems l9 have "length (subscribers s9) < fuel" by simp
    from Cons.IH[OF this, of "put_task tc e"] obtain res e' s' where
      "run_tasks fuel w rest (put_task tc e) s9 = Some (res, e', s')"
      "length (subscribers s') = length (subscribers s9)" by blast
    with n1 n2 True l9 show ?thesis
      by (simp add: Let_def now_def random_def te_def s2_def tc_def s8_def step_defs)
  next
    case False
    with n1 l3 show ?thesis
      by (simp add: Let_def now_def random_def te_def s2_def step_defs store_def)
  qed
qed

lemma executeDAG_total:
  assumes nt: "\<forall>c ev m. Throw m \<notin> set (handler w c ev)"
    and ns: "\<forall>c ev c'. Subscribe c' \<notin> set (handler w c ev)"
    and "length (subscribers s) < fuel"
  shows "\<exists>e s'. executeDAG fuel w d s = Some (Inr e, s')"
proof -
  let ?e0 = "new_execution w d s"
  have l4: "length (subscribers (started_state w d s)) < fuel"
    using assms(3) by (simp add: started_state_def now_def random_def)
  from notify_total[OF _ _ l4, of w "run_event ''execution_started'' ?e0"] nt ns
  obtain s5 where n1: "notify fuel w (run_event ''execution_started'' ?e0) (started_state w d s)
        = Some (Normal, s5)"
    and l5: "length (subscribers s5) = length (subscribers s)"
    by (auto simp: started_state_def now_def random_def)
  from l5 assms(3) have "length (subscribers s5) < fuel" by simp
  from run_tasks_total[OF nt ns this, of "dag_tasks d" ?e0] obtain res e1 s6 where
    rt: "run_tasks fuel w (dag_tasks d) ?e0 s5 = Some (res, e1, s6)"
    and l6: "length (subscribers s6) = length (subscribers s5)" by blast
  define e2 where "e2 = finished res (clk w (cix s6)) e1"
  have l8: "length (subscribers (finished_state w res e2 s6)) < fuel"
    using l6 l5 assms(3) by (simp add: finished_state_def now_def)
  from notify_total[OF _ _ l8, of w "run_event ''execution_completed'' e2"] nt ns
  obtain s9 where n9: "notify fuel w (run_event ''execution_completed'' e2)
        (finished_state w res e2 s6) = Some (Normal, s9)" by auto
  have "executeDAG fuel w d s = Some (Inr e2, s9)"
    using n1 rt n9
    by (cases res)
      (simp_all add: executeDAG_def Let_def now_def random_def new_execution_def
         started_state_def run_event_def e2_def finished_def finished_state_def)
  then show ?thesis by blast
qed

subsection \<open>Facts about the concrete inputs\<close>

lemma quiet_world_simps [simp]:
  "rnd (quiet_world r) = r" "clk (quiet_world r) = (\<lambda>n. n)"
  "handler (quiet_world r) = (\<lambda>c ev. [])"
  by (simp_all add: quiet_world_def)

lemma subscribers_demo [simp]: "subscribers (subscribe 0 (constructor r c)) = [Some 0]"
  by (simp add: subscribe_def constructor_def set_add_def)

lemma demo_positions [simp]:
  "rix (subscribe 0 (constructor r c)) = r" "cix (subscribe 0 (constructor r c)) = c"
  "rix (constructor r c) = r" "cix (constructor r c) = c" "subscribers (constructor r c) = []"
  by (simp_all add: subscribe_def constructor_def)

lemma data_pipeline_tasks [simp]:
  "map td_id (dag_tasks data_pipeline) = [''extract'', ''validate'', ''transform'', ''load'']"
  by (simp add: data_pipeline_def)

lemma two_subscribers [simp]:
  "subscribers (subscribe (Suc 0) (subscribe 0 (constructor r c))) = [Some 0, Some (Suc 0)]"
  "delivered (subscribe (Suc 0) (subscribe 0 (constructor r c))) = []"
  "published (subscribe (Suc 0) (subscribe 0 (constructor r c))) = []"
  by (simp_all add: subscribe_def constructor_def set_add_def)

lemmas run_defs = executeDAG_def Let_def now_def random_def store_def notify_def assign_task_def
  quiet_world_def one_task_def constructor_def lit_0_15_def returned_def

subsection \<open>The returned record\<close>





theorem executeDAG_completed_or_failed_counterexample:
  "ex_status (the (returned (executeDAG (Suc 0) (quiet_world (\<lambda>_. 1 / 2)) proto_task
       (constructor 0 0)))) = ''completed''
   \<and> length (dag_tasks proto_task) = 1
   \<and> distinct (map td_id (dag_tasks proto_task))
   \<and> ex_tasks (the (returned (executeDAG (Suc 0) (quiet_world (\<lambda>_. 1 / 2)) proto_task
       (constructor 0 0)))) = Map.empty
   \<and> map_option te_status (ex_tasks_proto (the (returned (executeDAG (Suc 0)
       (quiet_world (\<lambda>_. 1 / 2)) proto_task (constructor 0 0))))) = Some ''completed''"
  by (simp add: run_defs proto_task_def)

subsection \<open>The order of the published events\<close>










subsection \<open>Tasks start in the declared order\<close>

lemma started_tasks_append [simp]:
  "started_tasks (a @ b) = started_tasks a @ started_tasks b"
  by (simp add: started_tasks_def)

lemma started_tasks_simps [simp]:
  "started_tasks [] = []"
  "started_tasks (task_event ''task_started'' e te # evs) = te_id te # started_tasks evs"
  "started_tasks (task_event ''task_completed'' e te # evs) = started_tasks evs"
  "started_tasks (run_event ''execution_started'' e # evs) = started_tasks evs"
  "started_tasks (run_event ''execution_completed'' e # evs) = started_tasks evs"
  by (simp_all add: started_tasks_def task_event_def run_event_def)

lemma run_tasks_started:
  assumes "run_tasks fuel w ts e s = Some (res, e', s')"
  shows "\<exists>k evs. k \<le> length ts \<and> published s' = published s @ evs
           \<and> started_tasks evs = map td_id (take k ts)
           \<and> (res = Normal \<longrightarrow> k = length ts)
           \<and> (\<forall>i. Suc i < k \<longrightarrow> lit_0_15 < rnd w (rix s + 2 * i + 1))
           \<and> ((\<forall>c ev m. Throw m \<notin> set (handler w c ev)) \<longrightarrow>
                (ts \<noteq> [] \<longrightarrow> 0 < k)
                \<and> (k < length ts \<longrightarrow> \<not> lit_0_15 < rnd w (rix s + 2 * (k - 1) + 1)))"
  using assms
proof (induction ts arbitrary: e s)
  case Nil
  then show ?case by simp
next
  case (Cons t rest)
  let ?te = "te_running t (clk w (cix s))"
  let ?e1 = "task_event ''task_started'' (put_task ?te e) ?te"
  let ?nt = "\<forall>c ev m. Throw m \<notin> set (handler w c ev)"
  have one: "\<exists>k evs. k \<le> length (t # rest) \<and> published s' = published s @ evs
           \<and> started_tasks evs = map td_id (take k (t # rest))
           \<and> (res = Normal \<longrightarrow> k = length (t # rest))
           \<and> (\<forall>i. Suc i < k \<longrightarrow> lit_0_15 < rnd w (rix s + 2 * i + 1))
           \<and> (?nt \<longrightarrow> (t # rest \<noteq> [] \<longrightarrow> 0 < k)
                \<and> (k < length (t # rest) \<longrightarrow> \<not> lit_0_15 < rnd w (rix s + 2 * (k - 1) + 1)))"
    if p: "published s' = published s @ evs" and st: "started_tasks evs = [td_id t]"
      and r: "res \<noteq> Normal" and n: "?nt \<longrightarrow> \<not> lit_0_15 < rnd w (Suc (rix s))" for evs
  proof -
    have a1: "Suc 0 \<le> length (t # rest)" by simp
    have a2: "started_tasks evs = map td_id (take (Suc 0) (t # rest))" using st by simp
    have a3: "res = Normal \<longrightarrow> Suc 0 = length (t # rest)" using r by simp
    have a4: "\<forall>i. Suc i < Suc 0 \<longrightarrow> lit_0_15 < rnd w (rix s + 2 * i + 1)" by simp
    have a5: "?nt \<longrightarrow> (t # rest \<noteq> [] \<longrightarrow> 0 < Suc 0)
                \<and> (Suc 0 < length (t # rest)
                      \<longrightarrow> \<not> lit_0_15 < rnd w (rix s + 2 * (Suc 0 - 1) + 1))"
      using n by simp
    show ?thesis by (intro exI[of _ "Suc 0"] exI[of _ evs] conjI a1 p a2 a3 a4 a5)
  qed
  have nn: "\<not> ?nt" if th: "notify fuel w ev s0 = Some (Thrown m, s1)" for ev s0 m s1
  proof
    assume ?nt
    then have "\<forall>c m. Throw m \<notin> set (handler w c ev)" by simp
    from notify_no_throw[OF th this] show False by simp
  qed
  from Cons.prems show ?case
  proof (cases rule: run_tasks_ConsE)
    case (throw_started m s3)
    have p: "published s' = published s @ [?e1]"
      using notify_frame[OF throw_started(1)] throw_started(4) by simp
    have n: "?nt \<longrightarrow> \<not> lit_0_15 < rnd w (Suc (rix s))"
      using nn[OF throw_started(1)] by (intro impI) (erule notE, assumption)
    show ?thesis by (rule one[OF p _ _ n]) (simp_all add: throw_started(2))
  next
    case (throw_completed m s3 s9 tc)
    let ?e2 = "task_event ''task_completed'' (put_task tc e) tc"
    have p: "published s' = published s @ [?e1, ?e2]"
      using notify_frame[OF throw_completed(1)] notify_frame[OF throw_completed(4)]
        throw_completed(7) by simp
    have n: "?nt \<longrightarrow> \<not> lit_0_15 < rnd w (Suc (rix s))"
      using nn[OF throw_completed(4)] by (intro impI) (erule notE, assumption)
    show ?thesis by (rule one[OF p _ _ n]) (simp_all add: throw_completed(5))
  next
    case (failed s3 tf)
    have p: "published s' = published s @ [?e1]"
      using notify_frame[OF failed(1)] failed(6) by simp
    have "rix s3 = rix s" using notify_frame[OF failed(1)] by simp
    with failed(2) have n: "?nt \<longrightarrow> \<not> lit_0_15 < rnd w (Suc (rix s))" by simp
    show ?thesis by (rule one[OF p _ _ n]) (simp_all add: failed(4))
  next
    case (completed s3 s9 tc)
    let ?e2 = "task_event ''task_completed'' (put_task tc e) tc"
    from Cons.IH[OF completed(5)] obtain k evs where
      k1: "k \<le> length rest" and k2: "published s' = published s9 @ evs"
      and k3: "started_tasks evs = map td_id (take k rest)"
      and k4: "res = Normal \<longrightarrow> k = length rest"
      and k5: "\<forall>i. Suc i < k \<longrightarrow> lit_0_15 < rnd w (rix s9 + 2 * i + 1)"
      and k6: "?nt \<longrightarrow> (rest \<noteq> [] \<longrightarrow> 0 < k)
                \<and> (k < length rest \<longrightarrow> \<not> lit_0_15 < rnd w (rix s9 + 2 * (k - 1) + 1))"
      by (elim exE conjE) (rule that)
    have r3: "rix s3 = rix s" using notify_frame[OF completed(1)] by simp
    have r9: "rix s9 = Suc (Suc (rix s))" using notify_frame[OF completed(4)] r3 by simp
    have a1: "Suc k \<le> length (t # rest)" using k1 by simp
    have a2: "published s' = published s @ (?e1 # ?e2 # evs)"
      using notify_frame[OF completed(1)] notify_frame[OF completed(4)] k2 by simp
    have a3: "started_tasks (?e1 # ?e2 # evs) = map td_id (take (Suc k) (t # rest))"
      using k3 by simp
    have a4: "res = Normal \<longrightarrow> Suc k = length (t # rest)" using k4 by simp
    have a5: "\<forall>i. Suc i < Suc k \<longrightarrow> lit_0_15 < rnd w (rix s + 2 * i + 1)"
    proof (intro allI impI)
      fix i assume i: "Suc i < Suc k"
      show "lit_0_15 < rnd w (rix s + 2 * i + 1)"
      proof (cases i)
        case 0
        with completed(2) r3 show ?thesis by simp
      next
        case (Suc i')
        with i have "Suc i' < k" by simp
        with k5 have "lit_0_15 < rnd w (rix s9 + 2 * i' + 1)" by simp
        with Suc r9 show ?thesis by simp
      qed
    qed
    have a6: "?nt \<longrightarrow> (t # rest \<noteq> [] \<longrightarrow> 0 < Suc k)
                \<and> (Suc k < length (t # rest)
                      \<longrightarrow> \<not> lit_0_15 < rnd w (rix s + 2 * (Suc k - 1) + 1))"
    proof (intro impI conjI)
      show "0 < Suc k" by simp
      assume nt: ?nt and l: "Suc k < length (t # rest)"
      from l have kl: "k < length rest" by simp
      then have "rest \<noteq> []" by auto
      with k6 nt have pos: "0 < k" by simp
      from k6 nt kl have "\<not> lit_0_15 < rnd w (rix s9 + 2 * (k - 1) + 1)" by simp
      moreover have "rix s9 + 2 * (k - 1) + 1 = rix s + 2 * (Suc k - 1) + 1"
        using pos r9 by simp
      ultimately show "\<not> lit_0_15 < rnd w (rix s + 2 * (Suc k - 1) + 1)" by simp
    qed
    show ?thesis
      by (intro exI[of _ "Suc k"] exI[of _ "?e1 # ?e2 # evs"] conjI a1 a2 a3 a4 a5 a6)
  qed
qed

text \<open>
  Claim C6. The tasks are started in the order of the DAG's declared task array: the ids
  of the \<open>task_started\<close> events of a run that ends are, in order, those of the first \<open>k\<close>
  tasks of the array, with all of them when the run ends \<open>completed\<close>. When no callback
  throws, the task at a position is started exactly when the outcome drawn for each task
  before it was a success (the random value \<open>2 i + 2\<close> places after the state's read position
  decides task \<open>i\<close>), and when moreover no callback subscribes during a delivery the run
  ends. The dependency mapping has no influence: a DAG that differs in it only gives the
  same result of \<open>executeDAG\<close>, published events included.
\<close>

theorem executeDAG_task_order:
  "(\<forall>r s'. executeDAG fuel w d s = Some (r, s') \<longrightarrow>
      (\<exists>k evs. k \<le> length (dag_tasks d) \<and> published s' = published s @ evs
         \<and> started_tasks evs = map td_id (take k (dag_tasks d))
         \<and> (\<forall>e. r = Inr e \<and> ex_status e = ''completed'' \<longrightarrow> k = length (dag_tasks d))
         \<and> ((\<forall>c ev m. Throw m \<notin> set (handler w c ev)) \<longrightarrow>
               (\<forall>j<length (dag_tasks d).
                  j < k \<longleftrightarrow> (\<forall>i<j. lit_0_15 < rnd w (rix s + 2 * i + 2))))))
   \<and> ((\<forall>c ev m. Throw m \<notin> set (handler w c ev))
        \<and> (\<forall>c ev c'. Subscribe c' \<notin> set (handler w c ev)) \<and> length (subscribers s) < fuel
        \<longrightarrow> (\<exists>e s'. executeDAG fuel w d s = Some (Inr e, s')))
   \<and> executeDAG fuel w (d\<lparr>dag_dependencies := deps\<rparr>) s = executeDAG fuel w d s"
proof (intro conjI allI impI)
  fix r s'
  assume run: "executeDAG fuel w d s = Some (r, s')"
  let ?ts = "dag_tasks d"
  let ?nt = "\<forall>c ev m. Throw m \<notin> set (handler w c ev)"
  let ?e0 = "new_execution w d s"
  let ?ev0 = "run_event ''execution_started'' ?e0"
  from run show "\<exists>k evs. k \<le> length ?ts \<and> published s' = published s @ evs
         \<and> started_tasks evs = map td_id (take k ?ts)
         \<and> (\<forall>e. r = Inr e \<and> ex_status e = ''completed'' \<longrightarrow> k = length ?ts)
         \<and> (?nt \<longrightarrow> (\<forall>j<length ?ts. j < k \<longleftrightarrow> (\<forall>i<j. lit_0_15 < rnd w (rix s + 2 * i + 2))))"
  proof (cases rule: executeDAG_E)
    case (throw_started m)
    have a1: "0 \<le> length ?ts" by simp
    have a2: "published s' = published s @ [?ev0]"
      using notify_frame[OF throw_started(1)] by simp
    have a3: "started_tasks [?ev0] = map td_id (take 0 ?ts)" by simp
    have a4: "\<forall>e. r = Inr e \<and> ex_status e = ''completed'' \<longrightarrow> 0 = length ?ts"
      using throw_started(2) by simp
    have a5: "?nt \<longrightarrow> (\<forall>j<length ?ts. j < 0 \<longleftrightarrow> (\<forall>i<j. lit_0_15 < rnd w (rix s + 2 * i + 2)))"
    proof
      assume ?nt
      then have "\<forall>c m. Throw m \<notin> set (handler w c ?ev0)" by simp
      from notify_no_throw[OF throw_started(1) this] show
        "\<forall>j<length ?ts. j < 0 \<longleftrightarrow> (\<forall>i<j. lit_0_15 < rnd w (rix s + 2 * i + 2))" by simp
    qed
    show ?thesis by (intro exI[of _ 0] exI[of _ "[?ev0]"] conjI a1 a2 a3 a4 a5)
  next
    case (finished s5 res e1 s6 r9 e2)
    from run_tasks_started[OF finished(2)] obtain k evs where
      k1: "k \<le> length ?ts" and k2: "published s6 = published s5 @ evs"
      and k3: "started_tasks evs = map td_id (take k ?ts)"
      and k4: "res = Normal \<longrightarrow> k = length ?ts"
      and k5: "\<forall>i. Suc i < k \<longrightarrow> lit_0_15 < rnd w (rix s5 + 2 * i + 1)"
      and k6: "?nt \<longrightarrow> (?ts \<noteq> [] \<longrightarrow> 0 < k)
                \<and> (k < length ?ts \<longrightarrow> \<not> lit_0_15 < rnd w (rix s5 + 2 * (k - 1) + 1))"
      by (elim exE conjE) (rule that)
    have r5: "rix s5 = Suc (rix s)" using notify_frame[OF finished(1)] by simp
    let ?evs = "?ev0 # evs @ [run_event ''execution_completed'' e2]"
    have a2: "published s' = published s @ ?evs"
      using notify_frame[OF finished(1)] notify_frame[OF finished(4)] k2 by simp
    have a3: "started_tasks ?evs = map td_id (take k ?ts)"
      using k3 by simp
    have a4: "\<forall>e. r = Inr e \<and> ex_status e = ''completed'' \<longrightarrow> k = length ?ts"
    proof (intro allI impI)
      fix e assume e: "r = Inr e \<and> ex_status e = ''completed''"
      with finished(5) have "e = e2" by (cases r9) simp_all
      with e finished(3) have "res = Normal" by (cases res) simp_all
      with k4 show "k = length ?ts" by simp
    qed
    have a5: "?nt \<longrightarrow> (\<forall>j<length ?ts. j < k \<longleftrightarrow> (\<forall>i<j. lit_0_15 < rnd w (rix s + 2 * i + 2)))"
    proof (intro impI allI iffI)
      fix j i
      assume "j < k" "i < j"
      then have "Suc i < k" by simp
      with k5 have "lit_0_15 < rnd w (rix s5 + 2 * i + 1)" by simp
      then show "lit_0_15 < rnd w (rix s + 2 * i + 2)" using r5 by simp
    next
      fix j
      assume nt: ?nt and j: "j < length ?ts"
        and all: "\<forall>i<j. lit_0_15 < rnd w (rix s + 2 * i + 2)"
      show "j < k"
      proof (rule ccontr)
        assume "\<not> j < k"
        with j have kl: "k < length ?ts" and kj: "k \<le> j" by simp_all
        from kl have "?ts \<noteq> []" by auto
        with k6 nt have pos: "0 < k" by simp
        from k6 nt kl have "\<not> lit_0_15 < rnd w (rix s5 + 2 * (k - 1) + 1)" by simp
        moreover have "rix s5 + 2 * (k - 1) + 1 = rix s + 2 * (k - 1) + 2" using r5 by simp
        moreover from pos kj have "k - 1 < j" by simp
        ultimately show False using all by simp
      qed
    qed
    show ?thesis by (intro exI[of _ k] exI[of _ ?evs] conjI k1 a2 a3 a4 a5)
  qed
next
  assume "(\<forall>c ev m. Throw m \<notin> set (handler w c ev))
        \<and> (\<forall>c ev c'. Subscribe c' \<notin> set (handler w c ev)) \<and> length (subscribers s) < fuel"
  then show "\<exists>e s'. executeDAG fuel w d s = Some (Inr e, s')"
    by (intro executeDAG_total) simp_all
next
  have sel: "dag_id (d\<lparr>dag_dependencies := deps\<rparr>) = dag_id d"
    "dag_tasks (d\<lparr>dag_dependencies := deps\<rparr>) = dag_tasks d" by simp_all
  show "executeDAG fuel w (d\<lparr>dag_dependencies := deps\<rparr>) s = executeDAG fuel w d s"
    unfolding executeDAG_unfold new_execution_def started_state_def sel
    by (rule refl)
qed

theorem executeDAG_task_order_witness:
  "(\<forall>c ev m. Throw m \<notin> set (handler (quiet_world (\<lambda>_. 1 / 2)) c ev))
   \<and> (\<forall>c ev c'. Subscribe c' \<notin> set (handler (quiet_world (\<lambda>_. 1 / 2)) c ev))
   \<and> length (subscribers (subscribe 0 (constructor 0 0))) < 2
   \<and> (\<exists>e s'. executeDAG 2 (quiet_world (\<lambda>_. 1 / 2)) data_pipeline (subscribe 0 (constructor 0 0))
             = Some (Inr e, s')
        \<and> started_tasks (published s') = [''extract'', ''validate'', ''transform'', ''load''])
   \<and> executeDAG 2 (quiet_world (\<lambda>_. 1 / 2)) (data_pipeline\<lparr>dag_dependencies := []\<rparr>)
          (subscribe 0 (constructor 0 0))
        = executeDAG 2 (quiet_world (\<lambda>_. 1 / 2)) data_pipeline (subscribe 0 (constructor 0 0))"
proof -
  let ?w = "quiet_world (\<lambda>_. 1 / 2)"
  let ?s = "subscribe 0 (constructor 0 0)"
  have nt: "\<forall>c ev m. Throw m \<notin> set (handler ?w c ev)" by simp
  have ns: "\<forall>c ev c'. Subscribe c' \<notin> set (handler ?w c ev)" by simp
  have len: "length (subscribers ?s) < 2" by simp
  note t = executeDAG_task_order[of 2 ?w data_pipeline ?s "[]"]
  from t[THEN conjunct2, THEN conjunct1, rule_format, OF conjI[OF nt conjI[OF ns len]]]
  obtain e s' where r: "executeDAG 2 ?w data_pipeline ?s = Some (Inr e, s')"
    by (elim exE)
  have p: "published ?s = []" by (simp add: subscribe_def constructor_def)
  have n: "length (dag_tasks data_pipeline) = 4" by (simp add: data_pipeline_def)
  from t[THEN conjunct1, rule_format, OF r] obtain k evs where
    k1: "k \<le> length (dag_tasks data_pipeline)"
    and k2: "published s' = published ?s @ evs"
    and k3: "started_tasks evs = map td_id (take k (dag_tasks data_pipeline))"
    and k5: "(\<forall>c ev m. Throw m \<notin> set (handler ?w c ev)) \<longrightarrow>
               (\<forall>j<length (dag_tasks data_pipeline).
                  j < k \<longleftrightarrow> (\<forall>i<j. lit_0_15 < rnd ?w (rix ?s + 2 * i + 2)))"
    by (elim exE conjE) (rule that)
  have "lit_0_15 < (1 / 2 :: rat)" by (simp add: lit_0_15_def)
  with k5 nt have "\<forall>j<4. j < k" unfolding n by simp
  then have "3 < k" by simp
  with k1 have "k = 4" unfolding n by simp
  with k3 have "started_tasks evs = [''extract'', ''validate'', ''transform'', ''load'']"
    by (simp add: take_map [symmetric])
  with k2 have st: "started_tasks (published s') = [''extract'', ''validate'', ''transform'', ''load'']"
    unfolding p by simp
  have ex: "\<exists>e s'. executeDAG 2 ?w data_pipeline ?s = Some (Inr e, s')
        \<and> started_tasks (published s') = [''extract'', ''validate'', ''transform'', ''load'']"
    by (intro exI[of _ e] exI[of _ s'] conjI r st)
  note eq = t[THEN conjunct2, THEN conjunct2]
  show ?thesis by (intro conjI nt ns len ex eq)
qed

subsection \<open>The error message of a failed run\<close>




subsection \<open>The cost of a new execution record\<close>

lemma cost_bounds:
  assumes "0 \<le> r" "r < 1"
  shows "25 \<le> fadd (fmul r 50) 25 \<and> fadd (fmul r 50) 25 \<le> 75"
proof -
  define x where "x = fround (r * 50)"
  have x: "0 \<le> x \<and> x \<le> 50"
  proof (cases "r = 0")
    case True
    then show ?thesis by (simp add: x_def)
  next
    case False
    with assms have p: "0 < r * 50" "r * 50 < 2 ^ 52" by simp_all
    have "of_int 0 \<le> fround (r * 50)"
      using p by (rule fround_ge_int) (use assms in simp)
    moreover have "fround (r * 50) \<le> of_int 50"
      using p by (rule fround_le_int) (use assms in simp)
    ultimately show ?thesis by (simp add: x_def)
  qed
  then have p: "0 < x + 25" "x + 25 < 2 ^ 52" by simp_all
  have "of_int 25 \<le> fround (x + 25)"
    using p by (rule fround_ge_int) (use x in simp)
  moreover have "fround (x + 25) \<le> of_int 75"
    using p by (rule fround_le_int) (use x in simp)
  ultimately show ?thesis by (simp add: fadd_def fmul_def x_def)
qed

lemma cost_edge: "fadd (fmul largest_below_one 50) 25 = 75"
  by code_simp

lemma executeDAG_cost:
  assumes "executeDAG fuel w d s = Some (Inr e, s')"
  shows "ex_cost e = fadd (fmul (rnd w (rix s)) 50) 25"
  using assms
proof (cases rule: executeDAG_E)
  case (throw_started m)
  then show ?thesis by simp
next
  case (finished s5 res e1 s6 r9 e2)
  from finished(5) have "e = e2" by (cases r9) simp_all
  with finished(3) run_tasks_fields[OF finished(2)] show ?thesis
    by (simp add: new_execution_def)
qed

text \<open>
  Claim C8, as amended. When the random source produces values in [0, 1), the cost of a
  newly created execution record, which is also the cost of the record that the run
  returns, lies in the closed interval [25, 75].
\<close>

theorem new_execution_cost:
  assumes "\<forall>i. 0 \<le> rnd w i \<and> rnd w i < 1"
  shows "25 \<le> ex_cost (new_execution w d s) \<and> ex_cost (new_execution w d s) \<le> 75
       \<and> (\<forall>e s'. executeDAG fuel w d s = Some (Inr e, s') \<longrightarrow> 25 \<le> ex_cost e \<and> ex_cost e \<le> 75)"
proof -
  have b: "25 \<le> fadd (fmul (rnd w (rix s)) 50) 25 \<and> fadd (fmul (rnd w (rix s)) 50) 25 \<le> 75"
    by (rule cost_bounds) (use assms in simp_all)
  then show ?thesis
    by (auto simp: new_execution_def dest!: executeDAG_cost)
qed

theorem new_execution_cost_witness:
  "(\<forall>i. 0 \<le> rnd (quiet_world (\<lambda>_. 1 / 2)) i \<and> rnd (quiet_world (\<lambda>_. 1 / 2)) i < 1)
   \<and> (\<exists>e s'. executeDAG 2 (quiet_world (\<lambda>_. 1 / 2)) data_pipeline (subscribe 0 (constructor 0 0))
              = Some (Inr e, s') \<and> 25 \<le> ex_cost e \<and> ex_cost e \<le> 75)"
proof -
  let ?w = "quiet_world (\<lambda>_. 1 / 2)"
  let ?s = "subscribe 0 (constructor 0 0)"
  have h: "\<forall>i. 0 \<le> rnd ?w i \<and> rnd ?w i < 1" by simp
  have "\<exists>e s'. executeDAG 2 ?w data_pipeline ?s = Some (Inr e, s')"
    by (rule executeDAG_total) simp_all
  then obtain e s' where r: "executeDAG 2 ?w data_pipeline ?s = Some (Inr e, s')"
    by blast
  from new_execution_cost[OF h, of data_pipeline ?s 2] r
  have "25 \<le> ex_cost e \<and> ex_cost e \<le> 75" by blast
  with h r show ?thesis by blast
qed

theorem new_execution_cost_counterexample:
  "0 \<le> largest_below_one \<and> largest_below_one < 1
   \<and> ex_cost (the (returned (executeDAG (Suc 0) (quiet_world (\<lambda>_. largest_below_one)) one_task
        (constructor 0 0)))) = 75"
proof -
  let ?w = "quiet_world (\<lambda>_. largest_below_one)"
  have "\<exists>e s'. executeDAG (Suc 0) ?w one_task (constructor 0 0) = Some (Inr e, s')"
    by (rule executeDAG_total) simp_all
  then obtain e s' where r: "executeDAG (Suc 0) ?w one_task (constructor 0 0) = Some (Inr e, s')"
    by blast
  from executeDAG_cost[OF r] have "ex_cost e = 75" by (simp add: cost_edge)
  with r have "ex_cost (the (returned (executeDAG (Suc 0) ?w one_task (constructor 0 0)))) = 75"
    by (simp add: returned_def)
  moreover have "0 \<le> largest_below_one \<and> largest_below_one < 1"
    by (simp add: largest_below_one_def)
  ultimately show ?thesis by simp
qed

subsection \<open>A run depends on the values it reads only\<close>

lemma run_tasks_cong:
  assumes h: "handler w1 = handler w2"
    and "\<forall>i. rix s \<le> i \<and> i < rix s + 2 * length ts \<longrightarrow> rnd w1 i = rnd w2 i"
    and "\<forall>i. cix s \<le> i \<and> i < cix s + 2 * length ts \<longrightarrow> clk w1 i = clk w2 i"
  shows "run_tasks fuel w1 ts e s = run_tasks fuel w2 ts e s"
  using assms(2,3)
proof (induction ts arbitrary: e s)
  case Nil
  show ?case by simp
next
  case (Cons t rest)
  have c0: "clk w1 (cix s) = clk w2 (cix s)" and c1: "clk w1 (Suc (cix s)) = clk w2 (Suc (cix s))"
    using Cons.prems(2) by simp_all
  have r0: "rnd w1 (rix s) = rnd w2 (rix s)" and r1: "rnd w1 (Suc (rix s)) = rnd w2 (Suc (rix s))"
    using Cons.prems(1) by simp_all
  note nc = notify_handler_cong[OF h]
  define te where "te = te_running t (clk w2 (cix s))"
  define s2 where "s2 = store (put_task te e) (s\<lparr>cix := Suc (cix s)\<rparr>)"
  define ev1 where "ev1 = task_event ''task_started'' (put_task te e) te"
  have unf1: "run_tasks fuel w1 (t # rest) e s =
     (case notify fuel w2 ev1 s2 of
         None \<Rightarrow> None
       | Some (Thrown m, s3) \<Rightarrow> Some (Thrown m, put_task te e, s3)
       | Some (Normal, s3) \<Rightarrow>
           (if lit_0_15 < rnd w1 (Suc (rix s3)) then
              (case notify fuel w2 (task_event ''task_completed''
                          (put_task (te_completed t (clk w2 (cix s)) (clk w1 (cix s3))) e)
                          (te_completed t (clk w2 (cix s)) (clk w1 (cix s3))))
                         (store (put_task (te_completed t (clk w2 (cix s)) (clk w1 (cix s3))) e)
                            (worked w1 s3)) of
                    None \<Rightarrow> None
                  | Some (Thrown m, s9) \<Rightarrow>
                      Some (Thrown m, put_task (te_completed t (clk w2 (cix s)) (clk w1 (cix s3))) e, s9)
                  | Some (Normal, s9) \<Rightarrow>
                      run_tasks fuel w1 rest
                        (put_task (te_completed t (clk w2 (cix s)) (clk w1 (cix s3))) e) s9)
            else
              Some (Thrown ''Task failed'',
                    put_task (te_failed t (clk w2 (cix s)) (clk w1 (cix s3))) e,
                    store (put_task (te_failed t (clk w2 (cix s)) (clk w1 (cix s3))) e)
                      (worked w1 s3))))"
    by (simp only: run_tasks_Cons_unfold Let_def c0 nc te_def s2_def ev1_def)
  have unf2: "run_tasks fuel w2 (t # rest) e s =
     (case notify fuel w2 ev1 s2 of
         None \<Rightarrow> None
       | Some (Thrown m, s3) \<Rightarrow> Some (Thrown m, put_task te e, s3)
       | Some (Normal, s3) \<Rightarrow>
           (if lit_0_15 < rnd w2 (Suc (rix s3)) then
              (case notify fuel w2 (task_event ''task_completed''
                          (put_task (te_completed t (clk w2 (cix s)) (clk w2 (cix s3))) e)
                          (te_completed t (clk w2 (cix s)) (clk w2 (cix s3))))
                         (store (put_task (te_completed t (clk w2 (cix s)) (clk w2 (cix s3))) e)
                            (worked w2 s3)) of
                    None \<Rightarrow> None
                  | Some (Thrown m, s9) \<Rightarrow>
                      Some (Thrown m, put_task (te_completed t (clk w2 (cix s)) (clk w2 (cix s3))) e, s9)
                  | Some (Normal, s9) \<Rightarrow>
                      run_tasks fuel w2 rest
                        (put_task (te_completed t (clk w2 (cix s)) (clk w2 (cix s3))) e) s9)
            else
              Some (Thrown ''Task failed'',
                    put_task (te_failed t (clk w2 (cix s)) (clk w2 (cix s3))) e,
                    store (put_task (te_failed t (clk w2 (cix s)) (clk w2 (cix s3))) e)
                      (worked w2 s3))))"
    by (simp only: run_tasks_Cons_unfold Let_def te_def s2_def ev1_def)
  note unf = unf1 unf2
  note [simp del] = run_tasks.simps(2)
  show ?case
  proof (cases "notify fuel w2 ev1 s2")
    case None
    then show ?thesis by (simp add: unf)
  next
    case (Some p)
    obtain r3 s3 where p: "p = (r3, s3)" by (cases p)
    note n1 = Some[unfolded p]
    have f: "rix s3 = rix s" "cix s3 = Suc (cix s)"
      using notify_frame[OF n1] by (simp_all add: s2_def store_def)
    show ?thesis
    proof (cases r3)
      case (Thrown m)
      with n1 show ?thesis by (simp add: unf)
    next
      case Normal
      have wk: "worked w1 s3 = worked w2 s3" using r0 f by (simp add: worked_def)
      show ?thesis
      proof (cases "lit_0_15 < rnd w2 (Suc (rix s3))")
        case False
        with n1 Normal f r1 c1 wk show ?thesis by (simp add: unf)
      next
        case True
        define tc where "tc = te_completed t (clk w2 (cix s)) (clk w2 (Suc (cix s)))"
        define s8 where "s8 = store (put_task tc e) (worked w2 s3)"
        define ev2 where "ev2 = task_event ''task_completed'' (put_task tc e) tc"
        have u1: "run_tasks fuel w1 (t # rest) e s =
            (case notify fuel w2 ev2 s8 of None \<Rightarrow> None
             | Some (Thrown m, s9) \<Rightarrow> Some (Thrown m, put_task tc e, s9)
             | Some (Normal, s9) \<Rightarrow> run_tasks fuel w1 rest (put_task tc e) s9)"
          using n1 Normal f r1 c1 wk True
          by (simp add: unf tc_def s8_def ev2_def cong: option.case_cong prod.case_cong
                outcome.case_cong)
        have u2: "run_tasks fuel w2 (t # rest) e s =
            (case notify fuel w2 ev2 s8 of None \<Rightarrow> None
             | Some (Thrown m, s9) \<Rightarrow> Some (Thrown m, put_task tc e, s9)
             | Some (Normal, s9) \<Rightarrow> run_tasks fuel w2 rest (put_task tc e) s9)"
          using n1 Normal f r1 c1 wk True
          by (simp add: unf tc_def s8_def ev2_def cong: option.case_cong prod.case_cong
                outcome.case_cong)
        show ?thesis
        proof (cases "notify fuel w2 ev2 s8")
          case None
          then show ?thesis by (simp add: u1 u2)
        next
          case (Some q)
          obtain r9 s9 where q: "q = (r9, s9)" by (cases q)
          note n2 = Some[unfolded q]
          have f9: "rix s9 = Suc (Suc (rix s))" "cix s9 = Suc (Suc (cix s))"
            using notify_frame[OF n2] f by (simp_all add: s8_def store_def worked_def)
          show ?thesis
          proof (cases r9)
            case (Thrown m)
            with n2 show ?thesis by (simp add: u1 u2)
          next
            case Normal
            have a1: "\<forall>i. rix s9 \<le> i \<and> i < rix s9 + 2 * length rest \<longrightarrow> rnd w1 i = rnd w2 i"
            proof (intro allI impI)
              fix i assume "rix s9 \<le> i \<and> i < rix s9 + 2 * length rest"
              then have "rix s \<le> i \<and> i < rix s + 2 * length (t # rest)" using f9 by simp
              then show "rnd w1 i = rnd w2 i" using Cons.prems(1) by blast
            qed
            have a2: "\<forall>i. cix s9 \<le> i \<and> i < cix s9 + 2 * length rest \<longrightarrow> clk w1 i = clk w2 i"
            proof (intro allI impI)
              fix i assume "cix s9 \<le> i \<and> i < cix s9 + 2 * length rest"
              then have "cix s \<le> i \<and> i < cix s + 2 * length (t # rest)" using f9 by simp
              then show "clk w1 i = clk w2 i" using Cons.prems(2) by blast
            qed
            have "run_tasks fuel w1 rest (put_task tc e) s9
                = run_tasks fuel w2 rest (put_task tc e) s9"
              using a1 a2 by (rule Cons.IH)
            with n2 Normal show ?thesis by (simp add: u1 u2)
          qed
        qed
      qed
    qed
  qed
qed

text \<open>
  Claim C9. A run is a function of the DAG, the engine state, the callbacks and the
  values it reads from the random source and the clock: two worlds with the same
  callbacks that agree on the \<open>2 N + 1\<close> random values and the \<open>2 N + 3\<close> clock values
  following the state's read positions (\<open>N\<close> the number of tasks; a run reads no more) give
  the same result of \<open>executeDAG\<close>, and so the same sequence of published events.
\<close>

theorem executeDAG_deterministic:
  assumes h: "handler w1 = handler w2"
    and r: "\<forall>i. rix s \<le> i \<and> i < rix s + 2 * length (dag_tasks d) + 1 \<longrightarrow> rnd w1 i = rnd w2 i"
    and c: "\<forall>i. cix s \<le> i \<and> i < cix s + 2 * length (dag_tasks d) + 3 \<longrightarrow> clk w1 i = clk w2 i"
  shows "executeDAG fuel w1 d s = executeDAG fuel w2 d s"
proof -
  let ?ts = "dag_tasks d"
  note nc = notify_handler_cong[OF h]
  have c0: "clk w1 (cix s) = clk w2 (cix s)" "clk w1 (Suc (cix s)) = clk w2 (Suc (cix s))"
    using c by simp_all
  have r0: "rnd w1 (rix s) = rnd w2 (rix s)" using r by simp
  have ne: "new_execution w1 d s = new_execution w2 d s"
    by (simp add: new_execution_def c0 r0)
  have ss: "started_state w1 d s = started_state w2 d s"
    by (simp add: started_state_def ne now_def random_def)
  define e0 where "e0 = new_execution w2 d s"
  define ev0 where "ev0 = run_event ''execution_started'' e0"
  define s4 where "s4 = started_state w2 d s"
  note unf = executeDAG_unfold[of fuel w1 d s, unfolded ne ss nc, folded e0_def,
      folded ev0_def s4_def]
    executeDAG_unfold[of fuel w2 d s, folded e0_def, folded ev0_def s4_def]
  show ?thesis
  proof (cases "notify fuel w2 ev0 s4")
    case None
    then show ?thesis by (simp add: unf)
  next
    case (Some p)
    obtain r5 s5 where p: "p = (r5, s5)" by (cases p)
    note n1 = Some[unfolded p]
    have f5: "rix s5 = Suc (rix s)" "cix s5 = Suc (Suc (cix s))"
      using notify_frame[OF n1] by (simp_all add: s4_def)
    show ?thesis
    proof (cases r5)
      case (Thrown m)
      with n1 show ?thesis by (simp add: unf)
    next
      case Normal
      have a1: "\<forall>i. rix s5 \<le> i \<and> i < rix s5 + 2 * length ?ts \<longrightarrow> rnd w1 i = rnd w2 i"
      proof (intro allI impI)
        fix i assume "rix s5 \<le> i \<and> i < rix s5 + 2 * length ?ts"
        then have "rix s \<le> i \<and> i < rix s + 2 * length ?ts + 1" using f5 by simp
        then show "rnd w1 i = rnd w2 i" using r by blast
      qed
      have a2: "\<forall>i. cix s5 \<le> i \<and> i < cix s5 + 2 * length ?ts \<longrightarrow> clk w1 i = clk w2 i"
      proof (intro allI impI)
        fix i assume "cix s5 \<le> i \<and> i < cix s5 + 2 * length ?ts"
        then have "cix s \<le> i \<and> i < cix s + 2 * length ?ts + 3" using f5 by simp
        then show "clk w1 i = clk w2 i" using c by blast
      qed
      have rc: "run_tasks fuel w1 ?ts e0 s5 = run_tasks fuel w2 ?ts e0 s5"
        using h a1 a2 by (rule run_tasks_cong)
      show ?thesis
      proof (cases "run_tasks fuel w2 ?ts e0 s5")
        case None
        with n1 Normal rc show ?thesis by (simp add: unf)
      next
        case (Some q)
        obtain res e1 s6 where q: "q = (res, e1, s6)" by (cases q)
        note rt = Some[unfolded q]
        from run_tasks_positions[OF rt] f5
        have "cix s \<le> cix s6 \<and> cix s6 < cix s + 2 * length ?ts + 3" by simp
        with c have c6: "clk w1 (cix s6) = clk w2 (cix s6)" by blast
        from n1 Normal rc rt c6 show ?thesis
          by (simp add: unf finished_state_world[of w1 _ _ _ w2] nc
                cong: option.case_cong prod.case_cong outcome.case_cong)
      qed
    qed
  qed
qed

theorem executeDAG_deterministic_witness:
  "rnd (quiet_world (\<lambda>i. if i < 9 then 1 / 2 else 0)) \<noteq> rnd (quiet_world (\<lambda>_. 1 / 2))
   \<and> executeDAG 2 (quiet_world (\<lambda>i. if i < 9 then 1 / 2 else 0)) data_pipeline
        (subscribe 0 (constructor 0 0))
     = executeDAG 2 (quiet_world (\<lambda>_. 1 / 2)) data_pipeline (subscribe 0 (constructor 0 0))"
proof -
  let ?w1 = "quiet_world (\<lambda>i. if i < 9 then 1 / 2 else 0)"
  let ?w2 = "quiet_world (\<lambda>_. 1 / 2)"
  let ?s = "subscribe 0 (constructor 0 0)"
  have len: "length (dag_tasks data_pipeline) = 4" by (simp add: data_pipeline_def)
  have h: "handler ?w1 = handler ?w2" by simp
  have r: "\<forall>i. rix ?s \<le> i \<and> i < rix ?s + 2 * length (dag_tasks data_pipeline) + 1
             \<longrightarrow> rnd ?w1 i = rnd ?w2 i" by (simp add: len)
  have c: "\<forall>i. cix ?s \<le> i \<and> i < cix ?s + 2 * length (dag_tasks data_pipeline) + 3
             \<longrightarrow> clk ?w1 i = clk ?w2 i" by simp
  have "rnd ?w1 9 \<noteq> rnd ?w2 9" by simp
  then have "rnd ?w1 \<noteq> rnd ?w2" by metis
  with executeDAG_deterministic[OF h r c, of 2] show ?thesis by simp
qed

subsection \<open>Exceptions and runs that do not end\<close>








subsection \<open>The subscriber set\<close>

lemma entries_simps [simp]:
  "entries [] = []" "entries (None # es) = entries es" "entries (Some c # es) = c # entries es"
  "entries (es @ fs) = entries es @ entries fs"
  by (simp_all add: entries_def)

lemma set_entries: "set (entries es) = {c. Some c \<in> set es}"
proof (induction es)
  case Nil
  show ?case by simp
next
  case (Cons e es)
  then show ?case by (cases e) auto
qed

lemma entries_set_delete: "entries (set_delete c es) = remove1 c (entries es)"
proof (induction es)
  case Nil
  show ?case by simp
next
  case (Cons e es)
  then show ?case by (cases e) auto
qed


lemma distinct_set_add: "distinct (entries es) \<Longrightarrow> distinct (entries (set_add c es))"
  by (auto simp: set_add_def set_entries)

lemma distinct_set_delete: "distinct (entries es) \<Longrightarrow> distinct (entries (set_delete c es))"
  by (simp add: entries_set_delete)


lemma distinct_constructor: "distinct (entries (subscribers (constructor r c)))"
  by (simp add: constructor_def)

lemma distinct_subscribe:
  "distinct (entries (subscribers s)) \<Longrightarrow> distinct (entries (subscribers (subscribe c s)))"
  by (simp add: subscribe_def distinct_set_add)

lemma distinct_unsubscribe:
  "distinct (entries (subscribers s)) \<Longrightarrow> distinct (entries (subscribers (unsubscribe c s)))"
  by (simp add: unsubscribe_def distinct_set_delete)

lemma distinct_run_actions:
  "distinct (entries (subscribers s))
   \<Longrightarrow> distinct (entries (subscribers (snd (run_actions as s))))"
  by (induction as s rule: run_actions.induct)
    (simp_all add: distinct_subscribe distinct_unsubscribe)

lemma distinct_forEach:
  "forEach fuel w ev i s = Some (r, s') \<Longrightarrow> distinct (entries (subscribers s))
   \<Longrightarrow> distinct (entries (subscribers s'))"
proof (induction fuel w ev i s rule: forEach.induct)
  case (1 w ev i s)
  then show ?case by simp
next
  case (2 fuel w ev i s)
  show ?case
  proof (cases "i < length (subscribers s)")
    case False
    with "2.prems" show ?thesis by simp
  next
    case True
    show ?thesis
    proof (cases "subscribers s ! i")
      case None
      with True "2.prems" have "forEach fuel w ev (Suc i) s = Some (r, s')" by simp
      with "2.IH"(1)[OF True None] "2.prems"(2) show ?thesis by simp
    next
      case (Some c)
      let ?s1 = "s\<lparr>delivered := delivered s @ [(c, ev)]\<rparr>"
      obtain r1 s1 where ra: "run_actions (handler w c ev) ?s1 = (r1, s1)" by force
      have "distinct (entries (subscribers (snd (run_actions (handler w c ev) ?s1))))"
        by (rule distinct_run_actions) (use "2.prems"(2) in simp)
      with ra have d1: "distinct (entries (subscribers s1))" by simp
      show ?thesis
      proof (cases r1)
        case Normal
        with True Some ra "2.prems" have "forEach fuel w ev (Suc i) s1 = Some (r, s')" by simp
        from "2.IH"(2)[OF True Some ra[symmetric] _ this] Normal d1
        show ?thesis by simp
      next
        case (Thrown m)
        with True Some ra "2.prems" have "s' = s1" by simp
        with d1 show ?thesis by simp
      qed
    qed
  qed
qed

lemma distinct_notify:
  "notify fuel w ev s = Some (r, s') \<Longrightarrow> distinct (entries (subscribers s))
   \<Longrightarrow> distinct (entries (subscribers s'))"
  unfolding notify_def by (drule distinct_forEach) simp_all

lemma distinct_run_tasks:
  "run_tasks fuel w ts e s = Some (res, e', s') \<Longrightarrow> distinct (entries (subscribers s))
   \<Longrightarrow> distinct (entries (subscribers s'))"
proof (induction ts arbitrary: e s)
  case Nil
  then show ?case by simp
next
  case (Cons t rest)
  from Cons.prems(1) show ?case
  proof (cases rule: run_tasks_ConsE)
    case (throw_started m s3)
    with distinct_notify[OF throw_started(1)] Cons.prems(2) show ?thesis by simp
  next
    case (throw_completed m s3 s9 tc)
    from distinct_notify[OF throw_completed(1)] Cons.prems(2)
    have "distinct (entries (subscribers s3))" by simp
    with distinct_notify[OF throw_completed(4)] throw_completed(7) show ?thesis by simp
  next
    case (completed s3 s9 tc)
    from distinct_notify[OF completed(1)] Cons.prems(2)
    have "distinct (entries (subscribers s3))" by simp
    with distinct_notify[OF completed(4)] have "distinct (entries (subscribers s9))" by simp
    with Cons.IH[OF completed(5)] show ?thesis by simp
  next
    case (failed s3 tf)
    from distinct_notify[OF failed(1)] Cons.prems(2)
    have "distinct (entries (subscribers s3))" by simp
    with failed(6) show ?thesis by simp
  qed
qed

lemma distinct_executeDAG:
  assumes "executeDAG fuel w d s = Some (r, s')" and "distinct (entries (subscribers s))"
  shows "distinct (entries (subscribers s'))"
  using assms(1)
proof (cases rule: executeDAG_E)
  case (throw_started m)
  from distinct_notify[OF throw_started(1)] assms(2) show ?thesis by simp
next
  case (finished s5 res e1 s6 r9 e2)
  from distinct_notify[OF finished(1)] assms(2) have "distinct (entries (subscribers s5))" by simp
  with distinct_run_tasks[OF finished(2)] have "distinct (entries (subscribers s6))" by simp
  with distinct_notify[OF finished(4)] show ?thesis by simp
qed



subsection \<open>Unsubscribing during a delivery\<close>







subsection \<open>Subscribing twice\<close>



theorem subscribe_idempotent_counterexample:
  "subscribers (subscribe 1 (subscribe 0 (subscribe 0 (constructor 0 0)))) = [Some 0, Some 1]
   \<and> map fst (delivered (snd (the (notify (Suc (Suc (Suc (Suc 0)))) reviving_world demo_event
        (subscribe 1 (subscribe 0 (subscribe 0 (constructor 0 0)))))))) = [0, 1, 0]
   \<and> count_list (delivered (snd (the (notify (Suc (Suc (Suc (Suc 0)))) reviving_world demo_event
        (subscribe 1 (subscribe 0 (subscribe 0 (constructor 0 0)))))))) (0, demo_event) = 2"
  by (simp add: notify_def reviving_world_def subscribe_def unsubscribe_def set_add_def
        constructor_def)

end
